theory Spec2Isabelle
  imports Complex_Main
begin

text \<open>
  A model of the shortest-path programs of the repository: the indexed binary heap
  (heap.c), the adjacency-list and adjacency-matrix graphs, \<^verbatim>\<open>dijkstra\<close>,
  \<^verbatim>\<open>dijkstra_markov\<close>, \<^verbatim>\<open>bellman_ford\<close> and \<^verbatim>\<open>floyd_warshall\<close>, followed by the
  properties proved about them. C \<^verbatim>\<open>int\<close>s are modelled as unbounded integers: every
  index of the programs is bounded by the number of vertices.
\<close>

section \<open>Weights: C doubles with the INFINITY sentinel\<close>

text \<open>
  The programs store distances and keys in C \<^verbatim>\<open>double\<close>s and use the macro
  \<^verbatim>\<open>INFINITY\<close> for "no edge" and "not reached". The model idealises a double as a
  real number or \<open>INFINITY\<close>: rounding, overflow, negative infinity and NaN are not
  modelled. \<open>wadd\<close> is C's \<^verbatim>\<open>+\<close> and \<open>wless\<close> is C's \<^verbatim>\<open><\<close> on such values.
\<close>

datatype dbl = Fin real | INFINITY

fun wadd :: "dbl \<Rightarrow> dbl \<Rightarrow> dbl" where
  "wadd (Fin a) (Fin b) = Fin (a + b)"
| "wadd (Fin a) INFINITY = INFINITY"
| "wadd INFINITY b = INFINITY"

fun wless :: "dbl \<Rightarrow> dbl \<Rightarrow> bool" where
  "wless (Fin a) (Fin b) = (a < b)"
| "wless (Fin a) INFINITY = True"
| "wless INFINITY b = False"

section \<open>Failures and array accesses\<close>

text \<open>
  A failed \<^verbatim>\<open>assert\<close> aborts the process: \<open>AssertionFailed\<close>. An array access outside
  the allocated block is undefined behaviour in C; the model stops there with
  \<open>OutOfBounds\<close>, so that no result is ever attributed to such a run. \<open>NotModelled\<close>
  marks a floating-point operation whose C result (a NaN or a negative infinity) is
  outside the idealised doubles.
\<close>

datatype error = AssertionFailed | OutOfBounds | NotModelled

definition bnd :: "error + 'a \<Rightarrow> ('a \<Rightarrow> error + 'b) \<Rightarrow> error + 'b" where
  "bnd m f = (case m of Inl e \<Rightarrow> Inl e | Inr x \<Rightarrow> f x)"

definition rd :: "'a list \<Rightarrow> int \<Rightarrow> error + 'a" where
  "rd xs i = (if 0 \<le> i \<and> i < int (length xs) then Inr (xs ! nat i) else Inl OutOfBounds)"

definition wr :: "'a list \<Rightarrow> int \<Rightarrow> 'a \<Rightarrow> error + 'a list" where
  "wr xs i x = (if 0 \<le> i \<and> i < int (length xs) then Inr (xs[nat i := x]) else Inl OutOfBounds)"

section \<open>The indexed binary heap (heap.c)\<close>

record vertex_s =
  ind :: int
  weight :: dbl
  prev :: int

record heap_s =
  array :: "vertex_s list"
  inds :: "int list"
  nb_elements :: int
  max_elements :: int

text \<open>
  \<^verbatim>\<open>malloc\<close> leaves the slots of \<^verbatim>\<open>array\<close> indeterminate; the model fills them with
  \<open>unset\<close>. The heap functions read a slot only after writing it.
\<close>

definition unset :: vertex_s where
  "unset = \<lparr>ind = 0, weight = Fin 0, prev = 0\<rparr>"

text \<open>
  \<^verbatim>\<open>swap\<close>: the two index updates read the vertex back from the slot just written, as
  the C statements \<^verbatim>\<open>h->inds[h->array[v].ind] = v\<close> and \<^verbatim>\<open>h->inds[h->array[w].ind] = w\<close> do.
\<close>

definition swap :: "heap_s \<Rightarrow> int \<Rightarrow> int \<Rightarrow> error + heap_s" where
  "swap h v w =
     bnd (rd (array h) v) (\<lambda>tmp_v.
     bnd (rd (array h) w) (\<lambda>a_w.
     bnd (wr (array h) v a_w) (\<lambda>arr1.
     bnd (rd arr1 v) (\<lambda>a_v.
     bnd (wr (inds h) (ind a_v) v) (\<lambda>inds1.
     bnd (wr arr1 w tmp_v) (\<lambda>arr2.
     bnd (rd arr2 w) (\<lambda>a_w2.
     bnd (wr inds1 (ind a_w2) w) (\<lambda>inds2.
     Inr (h\<lparr>array := arr2, inds := inds2\<rparr>)))))))))"

text \<open>
  \<^verbatim>\<open>heap_create\<close>: a negative size makes the \<^verbatim>\<open>malloc\<close> argument wrap to a huge
  \<^verbatim>\<open>size_t\<close>, the allocation fails and the assertion on its result aborts. For size 0
  the model takes \<^verbatim>\<open>malloc(0)\<close> to succeed; nothing below depends on that case.
\<close>

definition heap_create :: "int \<Rightarrow> error + heap_s" where
  "heap_create nb_inds =
     (if nb_inds < 0 then Inl AssertionFailed
      else Inr \<lparr>array = replicate (nat nb_inds) unset,
                inds = replicate (nat nb_inds) (- 1),
                nb_elements = 0,
                max_elements = nb_inds\<rparr>)"

lemma bnd_cong [fundef_cong]:
  "m = m' \<Longrightarrow> (\<And>x. m' = Inr x \<Longrightarrow> f x = f' x) \<Longrightarrow> bnd m f = bnd m' f'"
  by (auto simp: bnd_def split: sum.splits)

fun check_loop :: "heap_s \<Rightarrow> int list \<Rightarrow> error + bool" where
  "check_loop h [] = Inr True"
| "check_loop h (i # rest) =
     bnd (rd (array h) i) (\<lambda>a.
     bnd (rd (inds h) (ind a)) (\<lambda>s.
     if s \<noteq> i then Inr False else check_loop h rest))"

definition check_heap :: "heap_s \<Rightarrow> error + bool" where
  "check_heap h =
     (if nb_elements h \<ge> max_elements h then Inr False
      else check_loop h [0 .. nb_elements h - 1])"

text \<open>The \<^verbatim>\<open>while\<close> loop of \<^verbatim>\<open>heap_add\<close>, from slot \<open>i\<close> towards the root.\<close>

function sift_up :: "heap_s \<Rightarrow> int \<Rightarrow> error + heap_s" where
  "sift_up heap i =
     (if i > 0 then
        bnd (rd (array heap) i) (\<lambda>a.
        bnd (rd (array heap) ((i - 1) div 2)) (\<lambda>p.
        if wless (weight a) (weight p) then
          bnd (rd (inds heap) (ind a)) (\<lambda>s.
          if s \<noteq> i then Inl AssertionFailed
          else bnd (swap heap i ((i - 1) div 2)) (\<lambda>heap'. sift_up heap' ((i - 1) div 2)))
        else Inr heap))
      else Inr heap)"
  by pat_completeness auto
termination
  by (relation "measure (\<lambda>(h, i). nat i)") auto

declare sift_up.simps [simp del]

definition heap_add :: "vertex_s \<Rightarrow> heap_s \<Rightarrow> error + heap_s" where
  "heap_add vertex heap =
     bnd (check_heap heap) (\<lambda>ok.
     if \<not> ok then Inl AssertionFailed else
     bnd (rd (inds heap) (ind vertex)) (\<lambda>slot.
     bnd (if slot = - 1 then
            (let i = nb_elements heap;
                 heap1 = heap\<lparr>nb_elements := nb_elements heap + 1\<rparr>
             in if \<not> nb_elements heap1 \<le> max_elements heap1 then Inl AssertionFailed else
                bnd (wr (array heap1) i vertex) (\<lambda>arr.
                bnd (wr (inds heap1) (ind vertex) i) (\<lambda>is.
                sift_up (heap1\<lparr>array := arr, inds := is\<rparr>) i)))
          else
            bnd (rd (array heap) slot) (\<lambda>a.
            if wless (weight vertex) (weight a)
            then bnd (wr (array heap) slot vertex) (\<lambda>arr. Inr (heap\<lparr>array := arr\<rparr>))
            else Inr heap))
       (\<lambda>heap2.
     bnd (check_heap heap2) (\<lambda>ok2.
     if ok2 then Inr heap2 else Inl AssertionFailed))))"

definition heap_empty :: "heap_s \<Rightarrow> bool" where
  "heap_empty heap = (nb_elements heap = 0)"

definition heap_peek :: "heap_s \<Rightarrow> error + vertex_s" where
  "heap_peek heap = (if heap_empty heap then Inl AssertionFailed else rd (array heap) 0)"

text \<open>The three \<^verbatim>\<open>if\<close>s of the loop body of \<^verbatim>\<open>heap_remove\<close> that pick \<^verbatim>\<open>largest_index\<close>.\<close>

definition largest_index :: "heap_s \<Rightarrow> int \<Rightarrow> error + int" where
  "largest_index heap i =
     (let left_index = i * 2 + 1; right_index = i * 2 + 2 in
      bnd (if left_index < nb_elements heap then
             bnd (rd (array heap) left_index) (\<lambda>l.
             bnd (rd (array heap) i) (\<lambda>c.
             Inr (if wless (weight l) (weight c) then left_index else i)))
           else Inr i) (\<lambda>largest1.
      if right_index < nb_elements heap then
        bnd (rd (array heap) right_index) (\<lambda>r.
        bnd (rd (array heap) largest1) (\<lambda>c.
        Inr (if wless (weight r) (weight c) then right_index else largest1)))
      else Inr largest1))"

lemma swap_nb_elements: "swap h v w = Inr h' \<Longrightarrow> nb_elements h' = nb_elements h"
  by (auto simp: swap_def bnd_def split: sum.splits)

lemma largest_index_range:
  "largest_index heap i = Inr l \<Longrightarrow> l \<noteq> i \<Longrightarrow> i < l \<and> l < nb_elements heap"
  by (auto simp: largest_index_def bnd_def rd_def Let_def split: sum.splits if_splits)

function sift_down :: "heap_s \<Rightarrow> int \<Rightarrow> error + heap_s" where
  "sift_down heap i =
     (if i < nb_elements heap then
        bnd (largest_index heap i) (\<lambda>l.
        if l = i then Inr heap
        else bnd (swap heap i l) (\<lambda>heap'. sift_down heap' l))
      else Inr heap)"
  by pat_completeness auto
termination
proof (relation "measure (\<lambda>(h, i). nat (nb_elements h - i))")
  show "wf (measure (\<lambda>(h, i). nat (nb_elements h - i)))" by simp
next
  fix heap :: heap_s and i l :: int and heap' :: heap_s
  assume "i < nb_elements heap" "largest_index heap i = Inr l" "l \<noteq> i" "swap heap i l = Inr heap'"
  then show "((heap', l), (heap, i)) \<in> measure (\<lambda>(h, i). nat (nb_elements h - i))"
    using largest_index_range[of heap i l] swap_nb_elements[of heap i l heap'] by simp
qed

declare sift_down.simps [simp del]

definition heap_remove :: "heap_s \<Rightarrow> error + heap_s" where
  "heap_remove heap =
     bnd (check_heap heap) (\<lambda>ok.
     if \<not> ok then Inl AssertionFailed else
     bnd (rd (array heap) (nb_elements heap - 1)) (\<lambda>last_v.
     bnd (wr (array heap) 0 last_v) (\<lambda>arr.
     bnd (rd arr 0) (\<lambda>a0.
     bnd (wr (inds heap) (ind a0) 0) (\<lambda>is.
     bnd (sift_down (heap\<lparr>array := arr, inds := is, nb_elements := nb_elements heap - 1\<rparr>) 0) (\<lambda>heap2.
     bnd (check_heap heap2) (\<lambda>ok2.
     if ok2 then Inr heap2 else Inl AssertionFailed)))))))"

lemma sift_down_nb_elements: "sift_down h i = Inr h' \<Longrightarrow> nb_elements h' = nb_elements h"
proof (induction h i arbitrary: h' rule: sift_down.induct)
  case (1 heap i)
  note eq = "1.prems"[unfolded sift_down.simps[of heap i]]
  show ?case
  proof (cases "i < nb_elements heap")
    case False
    with eq show ?thesis by simp
  next
    case True
    then obtain l where l: "largest_index heap i = Inr l"
      using eq by (cases "largest_index heap i") (auto simp: bnd_def)
    show ?thesis
    proof (cases "l = i")
      case True
      with \<open>i < nb_elements heap\<close> l eq show ?thesis by (simp add: bnd_def)
    next
      case False
      then obtain h1 where h1: "swap heap i l = Inr h1"
        using \<open>i < nb_elements heap\<close> l eq by (cases "swap heap i l") (auto simp: bnd_def)
      have "sift_down h1 l = Inr h'"
        using \<open>i < nb_elements heap\<close> l False h1 eq by (simp add: bnd_def)
      then have "nb_elements h' = nb_elements h1"
        by (rule "1.IH"[OF \<open>i < nb_elements heap\<close> l False h1])
      then show ?thesis using swap_nb_elements[OF h1] by simp
    qed
  qed
qed

lemma rd_Inr: "rd xs i = Inr x \<longleftrightarrow> 0 \<le> i \<and> i < int (length xs) \<and> xs ! nat i = x"
  by (auto simp add: rd_def)

lemma wr_Inr: "wr xs i x = Inr ys \<longleftrightarrow> 0 \<le> i \<and> i < int (length xs) \<and> ys = xs[nat i := x]"
  by (auto simp add: wr_def)

lemma bnd_Inr: "bnd m f = Inr y \<longleftrightarrow> (\<exists>x. m = Inr x \<and> f x = Inr y)"
  by (cases m) (simp_all add: bnd_def)

lemma heap_remove_nb_elements:
  assumes "heap_remove q = Inr q'"
  shows "nb_elements q' = nb_elements q - 1 \<and> 1 \<le> nb_elements q"
proof -
  from assms obtain last_v arr a0 "is" heap2 where
    r: "rd (array q) (nb_elements q - 1) = Inr last_v" and
    s: "sift_down (q\<lparr>array := arr, inds := is, nb_elements := nb_elements q - 1\<rparr>) 0 = Inr heap2" and
    e: "heap2 = q'"
    unfolding heap_remove_def by (auto simp: bnd_Inr split: if_splits)
  from r have "1 \<le> nb_elements q" by (simp add: rd_Inr)
  moreover from sift_down_nb_elements[OF s] e have "nb_elements q' = nb_elements q - 1" by simp
  ultimately show ?thesis by simp
qed

section \<open>Graphs as adjacency lists (graph_list.h, graph_list.c)\<close>

text \<open>
  An adjacency list \<^verbatim>\<open>adj_list_s *\<close> is a list of \<^verbatim>\<open>vertex_s\<close> cells, the head of the
  C list first. The fields of \<^verbatim>\<open>edge_s\<close> carry the prefix \<open>e_\<close>, since \<open>weight\<close> is
  already the field of \<^verbatim>\<open>vertex_s\<close>.
\<close>

record edge_s =
  e_src :: int
  e_dst :: int
  e_weight :: dbl

record graph_s =
  nb_vertices :: int
  nb_edges :: int
  directed :: bool
  adj_lists :: "vertex_s list list"

text \<open>A \<^verbatim>\<open>for\<close> loop over the given indices whose body may fail.\<close>

fun for_loop :: "int list \<Rightarrow> (int \<Rightarrow> 's \<Rightarrow> error + 's) \<Rightarrow> 's \<Rightarrow> error + 's" where
  "for_loop [] body s = Inr s"
| "for_loop (i # rest) body s = bnd (body i s) (for_loop rest body)"

text \<open>
  The body of the edge loop of \<^verbatim>\<open>create_graph\<close>: the new cell is put in front of the
  list of its source, and for an undirected graph a mirrored cell in front of the list of
  its destination. A failing \<^verbatim>\<open>malloc\<close> is not modelled.
\<close>

definition add_edge :: "bool \<Rightarrow> edge_s \<Rightarrow> vertex_s list list \<Rightarrow> error + vertex_s list list" where
  "add_edge dir e adj =
     bnd (rd adj (e_src e)) (\<lambda>l.
     bnd (wr adj (e_src e) (\<lparr>ind = e_dst e, weight = e_weight e, prev = e_src e\<rparr> # l)) (\<lambda>adj1.
     if \<not> dir then
       bnd (rd adj1 (e_dst e)) (\<lambda>l2.
       wr adj1 (e_dst e) (\<lparr>ind = e_src e, weight = e_weight e, prev = e_dst e\<rparr> # l2))
     else Inr adj1))"

definition create_graph :: "int \<Rightarrow> int \<Rightarrow> bool \<Rightarrow> edge_s list \<Rightarrow> error + graph_s" where
  "create_graph n m dir edges =
     bnd (for_loop [0 .. m - 1] (\<lambda>i adj. bnd (rd edges i) (\<lambda>e. add_edge dir e adj))
            (replicate (nat n) [])) (\<lambda>adj.
     Inr \<lparr>nb_vertices = n, nb_edges = m, directed = dir, adj_lists = adj\<rparr>)"

definition get_adj_list :: "graph_s \<Rightarrow> int \<Rightarrow> error + vertex_s list" where
  "get_adj_list g i = (if i \<ge> nb_vertices g then Inr [] else rd (adj_lists g) i)"

section \<open>Dijkstra (function dijkstra)\<close>

text \<open>The result array \<^verbatim>\<open>dist\<close> of the source is called \<open>distv\<close> here.\<close>

text \<open>The inner \<^verbatim>\<open>while (adj != NULL)\<close> loop: one \<^verbatim>\<open>heap_add\<close> per improving neighbour.\<close>

fun relax_adj :: "vertex_s \<Rightarrow> vertex_s list \<Rightarrow> vertex_s list \<Rightarrow> heap_s \<Rightarrow> error + heap_s" where
  "relax_adj v distv [] q = Inr q"
| "relax_adj v distv (a # adj) q =
     (let new_weight = wadd (weight v) (weight a) in
      bnd (rd distv (ind a)) (\<lambda>d.
      if wless new_weight (weight d) then
        bnd (heap_add \<lparr>ind = ind a, weight = new_weight, prev = ind v\<rparr> q) (\<lambda>q'.
        relax_adj v distv adj q')
      else relax_adj v distv adj q))"

lemma visit_decreases:
  "n < length vs \<Longrightarrow> \<not> vs ! n \<Longrightarrow>
     length (filter Not (vs[n := True])) < length (filter Not vs)"
proof (induction vs arbitrary: n)
  case Nil
  then show ?case by simp
next
  case (Cons b vs)
  show ?case
  proof (cases n)
    case 0
    with Cons.prems show ?thesis by simp
  next
    case (Suc m)
    with Cons.prems have "m < length vs" "\<not> vs ! m" by simp_all
    then have "length (filter Not (vs[m := True])) < length (filter Not vs)"
      by (rule Cons.IH)
    with Suc show ?thesis by simp
  qed
qed

text \<open>
  The main \<^verbatim>\<open>while (!heap_empty(q))\<close> loop. Every round either marks a vertex that was
  not yet visited or leaves the marks alone and shortens the heap by one, so the loop
  ends whenever no step fails.
\<close>

function dijkstra_loop ::
  "graph_s \<Rightarrow> bool list \<Rightarrow> vertex_s list \<Rightarrow> heap_s \<Rightarrow> error + vertex_s list" where
  "dijkstra_loop g visited_vertices distv q =
     (if heap_empty q then Inr distv else
      bnd (heap_peek q) (\<lambda>v.
      bnd (heap_remove q) (\<lambda>q1.
      bnd (rd visited_vertices (ind v)) (\<lambda>seen.
      if \<not> seen then
        bnd (wr visited_vertices (ind v) True) (\<lambda>visited1.
        bnd (rd distv (ind v)) (\<lambda>d.
        bnd (wr distv (ind v) (d\<lparr>weight := weight v, prev := prev v\<rparr>)) (\<lambda>distv1.
        bnd (get_adj_list g (ind v)) (\<lambda>adj.
        bnd (relax_adj v distv1 adj q1) (\<lambda>q2.
        dijkstra_loop g visited1 distv1 q2)))))
      else dijkstra_loop g visited_vertices distv q1))))"
  by pat_completeness auto
termination
proof (relation "measures [\<lambda>(g, vs, d, q). length (filter Not vs), \<lambda>(g, vs, d, q). nat (nb_elements q)]")
  show "wf (measures [\<lambda>(g, vs, d, q). length (filter Not vs), \<lambda>(g, vs, d, q). nat (nb_elements q)])"
    by simp
next
  fix g :: graph_s and vs :: "bool list" and distv :: "vertex_s list" and q q1 q2 :: heap_s
    and v d :: vertex_s and seen :: bool and vs1 :: "bool list" and distv1 adj :: "vertex_s list"
  assume "rd vs (ind v) = Inr seen" "\<not> seen" "wr vs (ind v) True = Inr vs1"
  then have "nat (ind v) < length vs" "\<not> vs ! nat (ind v)" "vs1 = vs[nat (ind v) := True]"
    by (auto simp add: rd_Inr wr_Inr)
  then have "length (filter Not vs1) < length (filter Not vs)"
    using visit_decreases[of "nat (ind v)" vs] by simp
  then show "((g, vs1, distv1, q2), (g, vs, distv, q))
      \<in> measures [\<lambda>(g, vs, d, q). length (filter Not vs), \<lambda>(g, vs, d, q). nat (nb_elements q)]"
    by simp
next
  fix g :: graph_s and vs :: "bool list" and distv :: "vertex_s list" and q q1 :: heap_s
    and v :: vertex_s and seen :: bool
  assume "heap_remove q = Inr q1"
  then show "((g, vs, distv, q1), (g, vs, distv, q))
      \<in> measures [\<lambda>(g, vs, d, q). length (filter Not vs), \<lambda>(g, vs, d, q). nat (nb_elements q)]"
    using heap_remove_nb_elements[of q q1] by simp
qed

declare dijkstra_loop.simps [simp del]

definition dijkstra :: "graph_s \<Rightarrow> int \<Rightarrow> error + vertex_s list" where
  "dijkstra g src =
     (let n = nb_vertices g;
          distv = map (\<lambda>i. \<lparr>ind = i, weight = INFINITY, prev = - 1\<rparr>) [0 .. n - 1];
          visited_vertices = map (\<lambda>i. False) [0 .. n - 1]
      in bnd (heap_create n) (\<lambda>q.
         bnd (rd distv src) (\<lambda>d.
         bnd (wr distv src (d\<lparr>weight := Fin 0\<rparr>)) (\<lambda>distv1.
         bnd (rd distv1 src) (\<lambda>s.
         bnd (heap_add s q) (\<lambda>q1.
         dijkstra_loop g visited_vertices distv1 q1))))))"

section \<open>Graphs as adjacency matrices (graph_matrix.h, graph_matrix.c)\<close>

definition rd2 :: "'a list list \<Rightarrow> int \<Rightarrow> int \<Rightarrow> error + 'a" where
  "rd2 m i j = bnd (rd m i) (\<lambda>row. rd row j)"

definition wr2 :: "'a list list \<Rightarrow> int \<Rightarrow> int \<Rightarrow> 'a \<Rightarrow> error + 'a list list" where
  "wr2 m i j x = bnd (rd m i) (\<lambda>row. bnd (wr row j x) (\<lambda>row'. wr m i row'))"

text \<open>
  The adjacency matrix of \<^verbatim>\<open>create_graph\<close> (graph_matrix.c): 0 on the diagonal,
  \<^verbatim>\<open>INFINITY\<close> elsewhere, then every edge written in order, mirrored when the graph is
  undirected. A later edge between the same vertices overwrites an earlier one.
\<close>

definition set_edge :: "bool \<Rightarrow> edge_s \<Rightarrow> dbl list list \<Rightarrow> error + dbl list list" where
  "set_edge dir e m =
     bnd (wr2 m (e_src e) (e_dst e) (e_weight e)) (\<lambda>m1.
     if \<not> dir then wr2 m1 (e_dst e) (e_src e) (e_weight e) else Inr m1)"

definition create_matrix :: "int \<Rightarrow> int \<Rightarrow> bool \<Rightarrow> edge_s list \<Rightarrow> error + dbl list list" where
  "create_matrix n m dir edges =
     for_loop [0 .. m - 1] (\<lambda>i adj. bnd (rd edges i) (\<lambda>e. set_edge dir e adj))
       (map (\<lambda>i. map (\<lambda>j. if i = j then Fin 0 else INFINITY) [0 .. n - 1]) [0 .. n - 1])"

section \<open>Floyd-Warshall (main_floyd_warshall.c)\<close>

text \<open>
  The graph structure of the Floyd-Warshall program: \<^verbatim>\<open>dist\<close> and \<^verbatim>\<open>parent\<close> are
  \<open>n \<times> n\<close> matrices. The three programs each have a \<^verbatim>\<open>graph_s\<close> and a
  \<^verbatim>\<open>create_graph\<close> of their own; the matrix ones carry the prefix or suffix \<open>fw\<close> and
  \<open>bf\<close> here.
\<close>

record fw_graph_s =
  fw_nb_vertices :: int
  fw_nb_edges :: int
  fw_directed :: bool
  fw_adj_matrix :: "dbl list list"
  fw_dist :: "dbl list list"
  fw_parent :: "int list list"

text \<open>
  \<^verbatim>\<open>create_graph\<close> (graph_matrix.c) allocates the rows of \<^verbatim>\<open>dist\<close> and \<^verbatim>\<open>parent\<close> with
  \<^verbatim>\<open>malloc\<close> and does not initialise them. Their contents are the parameters \<open>d\<close> and
  \<open>p\<close>: nothing is assumed about what the allocation holds.
\<close>

definition create_graph_fw ::
  "int \<Rightarrow> int \<Rightarrow> bool \<Rightarrow> edge_s list \<Rightarrow> dbl list list \<Rightarrow> int list list \<Rightarrow> error + fw_graph_s" where
  "create_graph_fw n m dir edges d p =
     bnd (create_matrix n m dir edges) (\<lambda>adj.
     Inr \<lparr>fw_nb_vertices = n, fw_nb_edges = m, fw_directed = dir, fw_adj_matrix = adj,
          fw_dist = d, fw_parent = p\<rparr>)"

definition fw_init :: "int \<Rightarrow> int \<Rightarrow> fw_graph_s \<Rightarrow> error + fw_graph_s" where
  "fw_init v w g =
     bnd (rd2 (fw_adj_matrix g) v w) (\<lambda>a.
     bnd (wr2 (fw_dist g) v w a) (\<lambda>d.
     bnd (wr2 (fw_parent g) v w (if a \<noteq> INFINITY then v else - 1)) (\<lambda>p.
     Inr (g\<lparr>fw_dist := d, fw_parent := p\<rparr>))))"

definition fw_relax :: "int \<Rightarrow> int \<Rightarrow> int \<Rightarrow> fw_graph_s \<Rightarrow> error + fw_graph_s" where
  "fw_relax k v w g =
     bnd (rd2 (fw_dist g) v k) (\<lambda>dvk.
     bnd (rd2 (fw_dist g) k w) (\<lambda>dkw.
     (let new_distance = wadd dvk dkw in
      bnd (rd2 (fw_dist g) v w) (\<lambda>dvw.
      if wless new_distance dvw then
        bnd (wr2 (fw_dist g) v w new_distance) (\<lambda>d.
        bnd (rd2 (fw_parent g) k w) (\<lambda>pkw.
        bnd (wr2 (fw_parent g) v w pkw) (\<lambda>p.
        Inr (g\<lparr>fw_dist := d, fw_parent := p\<rparr>))))
      else Inr g))))"

text \<open>
  \<^verbatim>\<open>floyd_warshall\<close> returns a \<^verbatim>\<open>bool\<close>, documented as "true if the algorithm completes
  successfully without detecting a negative weight cycle, false otherwise". After the
  triple loop the source has only a \<^verbatim>\<open>/* TODO */\<close> comment and \<^verbatim>\<open>return true\<close>.
\<close>

definition floyd_warshall :: "fw_graph_s \<Rightarrow> error + (bool \<times> fw_graph_s)" where
  "floyd_warshall g =
     (let n = fw_nb_vertices g in
      bnd (for_loop [0 .. n - 1] (\<lambda>v. for_loop [0 .. n - 1] (\<lambda>w. fw_init v w)) g) (\<lambda>g1.
      bnd (for_loop [0 .. n - 1] (\<lambda>k.
             for_loop [0 .. n - 1] (\<lambda>v.
               for_loop [0 .. n - 1] (\<lambda>w. fw_relax k v w))) g1) (\<lambda>g2.
      Inr (True, g2))))"

section \<open>Bellman-Ford (main_bellman_ford.c)\<close>

text \<open>
  The graph structure of the Bellman-Ford program (its graph_matrix.h): \<^verbatim>\<open>dist\<close> and
  \<^verbatim>\<open>parent\<close> are arrays of length \<open>n\<close>, and the structure carries the flag
  \<^verbatim>\<open>neg_weight_cycle\<close>.
\<close>

record bf_graph_s =
  bf_nb_vertices :: int
  bf_nb_edges :: int
  bf_directed :: bool
  bf_adj_matrix :: "dbl list list"
  bf_dist :: "dbl list"
  bf_parent :: "int list"
  neg_weight_cycle :: bool

text \<open>
  graph_matrix.c of the Bellman-Ford program, which defines its \<^verbatim>\<open>create_graph\<close>, is not
  among the sources; its header declares the structure above and the same
  \<^verbatim>\<open>create_graph\<close> as the Floyd-Warshall program. The adjacency matrix is taken to be the
  one that program builds (\<open>create_matrix\<close>). What \<^verbatim>\<open>create_graph\<close> leaves in \<^verbatim>\<open>dist\<close>,
  in \<^verbatim>\<open>parent\<close> and in the flag is not known: these are the parameters \<open>d\<close>, \<open>p\<close>
  and \<open>f\<close>.
\<close>

definition create_graph_bf ::
  "int \<Rightarrow> int \<Rightarrow> bool \<Rightarrow> edge_s list \<Rightarrow> dbl list \<Rightarrow> int list \<Rightarrow> bool \<Rightarrow> error + bf_graph_s" where
  "create_graph_bf n m dir edges d p f =
     bnd (create_matrix n m dir edges) (\<lambda>adj.
     Inr \<lparr>bf_nb_vertices = n, bf_nb_edges = m, bf_directed = dir, bf_adj_matrix = adj,
          bf_dist = d, bf_parent = p, neg_weight_cycle = f\<rparr>)"

definition bf_init :: "int \<Rightarrow> int \<Rightarrow> bf_graph_s \<Rightarrow> error + bf_graph_s" where
  "bf_init src w g =
     bnd (wr (bf_dist g) w (if w \<noteq> src then INFINITY else Fin 0)) (\<lambda>d.
     bnd (wr (bf_parent g) w (if w \<noteq> src then - 1 else w)) (\<lambda>p.
     Inr (g\<lparr>bf_dist := d, bf_parent := p\<rparr>)))"

text \<open>The body of the two inner loops of the relaxation rounds, for target \<open>w\<close> and origin \<open>u\<close>.\<close>

definition bf_relax :: "int \<Rightarrow> int \<Rightarrow> bf_graph_s \<Rightarrow> error + bf_graph_s" where
  "bf_relax w u g =
     bnd (rd2 (bf_adj_matrix g) u w) (\<lambda>a.
     if a \<noteq> INFINITY then
       bnd (rd (bf_dist g) u) (\<lambda>du.
       (let new_distance = wadd du a in
        bnd (rd (bf_dist g) w) (\<lambda>dw.
        if wless new_distance dw then
          bnd (wr (bf_dist g) w new_distance) (\<lambda>d.
          bnd (wr (bf_parent g) w u) (\<lambda>p.
          Inr (g\<lparr>bf_dist := d, bf_parent := p\<rparr>)))
        else Inr g)))
     else Inr g)"

text \<open>
  The last pair of loops: it returns at the first pair \<open>(w, u)\<close> whose edge still improves
  \<open>dist[w]\<close>, after setting the flag. \<open>bf_detect\<close> walks the pairs in loop order and tells
  whether that \<^verbatim>\<open>return\<close> was reached.
\<close>

fun bf_detect :: "bf_graph_s \<Rightarrow> (int \<times> int) list \<Rightarrow> error + bool" where
  "bf_detect g [] = Inr False"
| "bf_detect g ((w, u) # rest) =
     bnd (rd2 (bf_adj_matrix g) u w) (\<lambda>a.
     if a \<noteq> INFINITY then
       bnd (rd (bf_dist g) u) (\<lambda>du.
       (let new_distance = wadd du a in
        bnd (rd (bf_dist g) w) (\<lambda>dw.
        if wless new_distance dw then Inr True else bf_detect g rest)))
     else bf_detect g rest)"

text \<open>
  \<^verbatim>\<open>bellman_ford\<close>. The relaxation rounds are \<^verbatim>\<open>for (int k = 1; k < nb_vertices - 1; k++)\<close>,
  that is \<open>k = 1, \<dots>, n - 2\<close>. (The source line after this \<^verbatim>\<open>for\<close> starts with a stray
  \<^verbatim>\<open>x\<close>, which is left out; the \<^verbatim>\<open>printf\<close> calls are left out too.)
\<close>

definition bellman_ford :: "bf_graph_s \<Rightarrow> int \<Rightarrow> error + bf_graph_s" where
  "bellman_ford g src =
     (let n = bf_nb_vertices g in
      bnd (for_loop [0 .. n - 1] (bf_init src) g) (\<lambda>g1.
      bnd (for_loop [1 .. n - 2] (\<lambda>k.
             for_loop [0 .. n - 1] (\<lambda>w.
               for_loop [0 .. n - 1] (\<lambda>u. bf_relax w u))) g1) (\<lambda>g2.
      bnd (bf_detect g2 (List.product [0 .. n - 1] [0 .. n - 1])) (\<lambda>found.
      Inr (if found then g2\<lparr>neg_weight_cycle := True\<rparr> else g2)))))"

text \<open>
  The algorithm as the specification words it, for comparison: "for \<open>n-1\<close> iterations, for
  every ordered pair \<open>(u,w)\<close> with a finite edge weight, if \<open>dist[u] + weight(u,w) < dist[w]\<close>,
  update \<open>dist[w]\<close> and \<open>predecessor[w]=u\<close>", then one more pass that sets the flag.
\<close>

definition bellman_ford_spec :: "bf_graph_s \<Rightarrow> int \<Rightarrow> error + bf_graph_s" where
  "bellman_ford_spec g src =
     (let n = bf_nb_vertices g in
      bnd (for_loop [0 .. n - 1] (bf_init src) g) (\<lambda>g1.
      bnd (for_loop [1 .. n - 1] (\<lambda>k.
             for_loop [0 .. n - 1] (\<lambda>w.
               for_loop [0 .. n - 1] (\<lambda>u. bf_relax w u))) g1) (\<lambda>g2.
      bnd (bf_detect g2 (List.product [0 .. n - 1] [0 .. n - 1])) (\<lambda>found.
      Inr (if found then g2\<lparr>neg_weight_cycle := True\<rparr> else g2)))))"

section \<open>The Markov variant (main_dijkstra_markov.c)\<close>

text \<open>
  \<^verbatim>\<open>exp(-x)\<close>, \<^verbatim>\<open>x * y\<close> and \<^verbatim>\<open>-log(x)\<close> on the idealised doubles, with the real
  exponential and logarithm. \<^verbatim>\<open>exp(-INFINITY)\<close> is 0 and \<^verbatim>\<open>-log(0)\<close> is \<^verbatim>\<open>INFINITY\<close>.
  Where C would produce a NaN or a negative infinity (\<^verbatim>\<open>0 * INFINITY\<close>, a negative
  number times \<^verbatim>\<open>INFINITY\<close>, the logarithm of a negative number or of \<^verbatim>\<open>INFINITY\<close>) the
  model stops with \<open>NotModelled\<close>.
\<close>

definition wexp_neg :: "dbl \<Rightarrow> dbl" where
  "wexp_neg x = (case x of Fin r \<Rightarrow> Fin (exp (- r)) | INFINITY \<Rightarrow> Fin 0)"

definition wmul :: "dbl \<Rightarrow> dbl \<Rightarrow> error + dbl" where
  "wmul x y =
     (case x of
        Fin a \<Rightarrow> (case y of
                    Fin b \<Rightarrow> Inr (Fin (a * b))
                  | INFINITY \<Rightarrow> (if a > 0 then Inr INFINITY else Inl NotModelled))
      | INFINITY \<Rightarrow> (case y of
                    Fin b \<Rightarrow> (if b > 0 then Inr INFINITY else Inl NotModelled)
                  | INFINITY \<Rightarrow> Inr INFINITY))"

definition wneg_log :: "dbl \<Rightarrow> error + dbl" where
  "wneg_log x =
     (case x of
        Fin r \<Rightarrow> (if r > 0 then Inr (Fin (- ln r))
                  else if r = 0 then Inr INFINITY else Inl NotModelled)
      | INFINITY \<Rightarrow> Inl NotModelled)"

text \<open>The inner loop of \<^verbatim>\<open>dijkstra_markov\<close>; \<open>v\<close> already carries the probability.\<close>

fun relax_adj_markov ::
  "vertex_s \<Rightarrow> vertex_s list \<Rightarrow> vertex_s list \<Rightarrow> heap_s \<Rightarrow> error + heap_s" where
  "relax_adj_markov v distv [] q = Inr q"
| "relax_adj_markov v distv (a # adj) q =
     bnd (wmul (weight v) (weight a)) (\<lambda>new_weight.
     bnd (rd distv (ind a)) (\<lambda>d.
     if wless (weight d) new_weight then
       bnd (wneg_log new_weight) (\<lambda>key.
       bnd (heap_add \<lparr>ind = ind a, weight = key, prev = ind v\<rparr> q) (\<lambda>q'.
       relax_adj_markov v distv adj q'))
     else relax_adj_markov v distv adj q))"

text \<open>
  The main loop of \<^verbatim>\<open>dijkstra_markov\<close>: as in \<^verbatim>\<open>dijkstra\<close>, with
  \<^verbatim>\<open>v.weight = exp(-v.weight)\<close> right after the extraction.
\<close>

function markov_loop ::
  "graph_s \<Rightarrow> bool list \<Rightarrow> vertex_s list \<Rightarrow> heap_s \<Rightarrow> error + vertex_s list" where
  "markov_loop g visited_vertices distv q =
     (if heap_empty q then Inr distv else
      bnd (heap_peek q) (\<lambda>v0.
      bnd (heap_remove q) (\<lambda>q1.
      (let v = v0\<lparr>weight := wexp_neg (weight v0)\<rparr> in
       bnd (rd visited_vertices (ind v)) (\<lambda>seen.
       if \<not> seen then
         bnd (wr visited_vertices (ind v) True) (\<lambda>visited1.
         bnd (rd distv (ind v)) (\<lambda>d.
         bnd (wr distv (ind v) (d\<lparr>weight := weight v, prev := prev v\<rparr>)) (\<lambda>distv1.
         bnd (get_adj_list g (ind v)) (\<lambda>adj.
         bnd (relax_adj_markov v distv1 adj q1) (\<lambda>q2.
         markov_loop g visited1 distv1 q2)))))
       else markov_loop g visited_vertices distv q1)))))"
  by pat_completeness auto
termination
proof (relation "measures [\<lambda>(g, vs, d, q). length (filter Not vs), \<lambda>(g, vs, d, q). nat (nb_elements q)]")
  show "wf (measures [\<lambda>(g, vs, d, q). length (filter Not vs), \<lambda>(g, vs, d, q). nat (nb_elements q)])"
    by simp
next
  fix g :: graph_s and vs :: "bool list" and distv :: "vertex_s list" and q q1 q2 :: heap_s
    and v :: vertex_s and seen :: bool and vs1 :: "bool list" and distv1 :: "vertex_s list"
  assume "rd vs (ind v) = Inr seen" "\<not> seen" "wr vs (ind v) True = Inr vs1"
  then have "nat (ind v) < length vs" "\<not> vs ! nat (ind v)" "vs1 = vs[nat (ind v) := True]"
    by (auto simp add: rd_Inr wr_Inr)
  then have "length (filter Not vs1) < length (filter Not vs)"
    using visit_decreases[of "nat (ind v)" vs] by simp
  then show "((g, vs1, distv1, q2), (g, vs, distv, q))
      \<in> measures [\<lambda>(g, vs, d, q). length (filter Not vs), \<lambda>(g, vs, d, q). nat (nb_elements q)]"
    by simp
next
  fix g :: graph_s and vs :: "bool list" and distv :: "vertex_s list" and q q1 :: heap_s
  assume "heap_remove q = Inr q1"
  then show "((g, vs, distv, q1), (g, vs, distv, q))
      \<in> measures [\<lambda>(g, vs, d, q). length (filter Not vs), \<lambda>(g, vs, d, q). nat (nb_elements q)]"
    using heap_remove_nb_elements[of q q1] by simp
qed

declare markov_loop.simps [simp del]

text \<open>
  \<^verbatim>\<open>dijkstra_markov\<close>: scores start at 0.0, the source gets 1.0, and \<^verbatim>\<open>dist[src]\<close>, with
  that 1.0 in its \<^verbatim>\<open>weight\<close> field, is what goes into the heap.
\<close>

definition dijkstra_markov :: "graph_s \<Rightarrow> int \<Rightarrow> error + vertex_s list" where
  "dijkstra_markov g src =
     (let n = nb_vertices g;
          distv = map (\<lambda>i. \<lparr>ind = i, weight = Fin 0, prev = - 1\<rparr>) [0 .. n - 1];
          visited_vertices = map (\<lambda>i. False) [0 .. n - 1]
      in bnd (heap_create n) (\<lambda>q.
         bnd (rd distv src) (\<lambda>d.
         bnd (wr distv src (d\<lparr>weight := Fin 1\<rparr>)) (\<lambda>distv1.
         bnd (rd distv1 src) (\<lambda>s.
         bnd (heap_add s q) (\<lambda>q1.
         markov_loop g visited_vertices distv1 q1))))))"

section \<open>Notions used to state the properties\<close>

text \<open>Short forms for the concrete edges and table entries of the scenarios.\<close>

definition edge :: "int \<Rightarrow> int \<Rightarrow> real \<Rightarrow> edge_s" where
  "edge a b w = \<lparr>e_src = a, e_dst = b, e_weight = Fin w\<rparr>"

definition entry :: "int \<Rightarrow> dbl \<Rightarrow> int \<Rightarrow> vertex_s" where
  "entry i k p = \<lparr>ind = i, weight = k, prev = p\<rparr>"

text \<open>A sequence of \<^verbatim>\<open>heap_add\<close> calls, in order.\<close>

fun heap_adds :: "vertex_s list \<Rightarrow> heap_s \<Rightarrow> error + heap_s" where
  "heap_adds [] h = Inr h"
| "heap_adds (v # vs) h = bnd (heap_add v h) (heap_adds vs)"

text \<open>
  Repeated extraction until the heap is empty, the way the loop of \<^verbatim>\<open>dijkstra\<close> extracts:
  \<^verbatim>\<open>heap_peek\<close>, then \<^verbatim>\<open>heap_remove\<close>. The result lists the extracted entries in order.
\<close>

function drain :: "heap_s \<Rightarrow> error + vertex_s list" where
  "drain q =
     (if heap_empty q then Inr [] else
      bnd (heap_peek q) (\<lambda>v.
      bnd (heap_remove q) (\<lambda>q1.
      bnd (drain q1) (\<lambda>rest. Inr (v # rest)))))"
  by pat_completeness auto
termination
proof (relation "measure (\<lambda>q. nat (nb_elements q))")
  show "wf (measure (\<lambda>q. nat (nb_elements q)))" by simp
next
  fix q q1 :: heap_s
  assume "heap_remove q = Inr q1"
  then show "(q1, q) \<in> measure (\<lambda>q. nat (nb_elements q))"
    using heap_remove_nb_elements[of q q1] by simp
qed

declare drain.simps [simp del]

text \<open>
  The two heap invariants: no occupied slot has a key smaller than its parent's, and the
  index array sends the vertex of every occupied slot back to that slot.
\<close>

definition heap_ordered :: "heap_s \<Rightarrow> bool" where
  "heap_ordered h =
     list_all (\<lambda>i. \<not> wless (weight (array h ! nat i)) (weight (array h ! nat ((i - 1) div 2))))
       [1 .. nb_elements h - 1]"

definition inds_consistent :: "heap_s \<Rightarrow> bool" where
  "inds_consistent h =
     list_all (\<lambda>i. inds h ! nat (ind (array h ! nat i)) = i) [0 .. nb_elements h - 1]"

text \<open>
  \<open>live_all P h\<close>: every occupied slot of the heap holds an entry with property \<open>P\<close>.
\<close>

definition live_all :: "(vertex_s \<Rightarrow> bool) \<Rightarrow> heap_s \<Rightarrow> bool" where
  "live_all P h \<longleftrightarrow>
     (\<forall>i. 0 \<le> i \<and> i < nb_elements h \<and> i < int (length (array h)) \<longrightarrow> P (array h ! nat i))"

text \<open>
  \<open>reachable g src w\<close>: there is a path from \<open>src\<close> to \<open>w\<close> along the cells of the
  adjacency lists. \<open>reached\<close> is what every heap entry of \<^verbatim>\<open>dijkstra\<close> satisfies, and
  \<open>table_inv\<close> says that every row of the result table is either untouched or was
  written from such an entry.
\<close>

inductive reachable :: "graph_s \<Rightarrow> int \<Rightarrow> int \<Rightarrow> bool" for g :: graph_s and src :: int where
  start: "reachable g src src"
| step: "reachable g src u \<Longrightarrow> 0 \<le> u \<Longrightarrow> u < nb_vertices g \<Longrightarrow> u < int (length (adj_lists g)) \<Longrightarrow>
         a \<in> set (adj_lists g ! nat u) \<Longrightarrow> reachable g src (ind a)"

definition reached :: "graph_s \<Rightarrow> int \<Rightarrow> vertex_s \<Rightarrow> bool" where
  "reached g src e \<longleftrightarrow> reachable g src (ind e) \<and> weight e \<noteq> INFINITY"

definition table_inv :: "graph_s \<Rightarrow> int \<Rightarrow> vertex_s list \<Rightarrow> bool" where
  "table_inv g src d \<longleftrightarrow>
     (\<forall>w. 0 \<le> w \<and> w < int (length d) \<longrightarrow>
        d ! nat w = entry w INFINITY (- 1) \<or> (ind (d ! nat w) = w \<and> reached g src (d ! nat w)))"

text \<open>
  Bellman-Ford: \<open>bf_initialised\<close> is the state of entry \<open>w\<close> after the first loop,
  \<open>bf_none_ok\<close> says that an infinite distance goes with the predecessor -1, and \<open>nonneg\<close>
  is a weight that is not negative. \<open>bf_walk m src w r\<close>: there is a walk from \<open>src\<close> to
  \<open>w\<close> along finite entries of the matrix \<open>m\<close> whose weights add up to \<open>r\<close>.
  \<open>bf_walk_ok\<close> is the invariant of the relaxation rounds: every finite distance is the
  weight of such a walk, and the entry of the source is as the first loop left it unless
  its distance went below 0.
\<close>

definition bf_initialised :: "int \<Rightarrow> int \<Rightarrow> bf_graph_s \<Rightarrow> bool" where
  "bf_initialised src w g \<longleftrightarrow>
     bf_dist g ! nat w = (if w \<noteq> src then INFINITY else Fin 0) \<and>
     bf_parent g ! nat w = (if w \<noteq> src then - 1 else w)"


definition nonneg :: "dbl \<Rightarrow> bool" where
  "nonneg x = (case x of Fin r \<Rightarrow> 0 \<le> r | INFINITY \<Rightarrow> True)"

inductive bf_walk :: "dbl list list \<Rightarrow> int \<Rightarrow> int \<Rightarrow> real \<Rightarrow> bool"
  for m :: "dbl list list" and src :: int where
  start: "bf_walk m src src 0"
| step: "bf_walk m src u r \<Longrightarrow> rd2 m u w = Inr (Fin a) \<Longrightarrow> bf_walk m src w (r + a)"

definition bf_walk_ok :: "int \<Rightarrow> int \<Rightarrow> bf_graph_s \<Rightarrow> bool" where
  "bf_walk_ok n src g \<longleftrightarrow>
     (\<forall>u. 0 \<le> u \<and> u < n \<longrightarrow>
        bf_dist g ! nat u = INFINITY \<or>
        (\<exists>r. bf_dist g ! nat u = Fin r \<and> bf_walk (bf_adj_matrix g) src u r)) \<and>
     ((bf_dist g ! nat src = Fin 0 \<and> bf_parent g ! nat src = src) \<or>
      (\<exists>r. r < 0 \<and> bf_dist g ! nat src = Fin r))"



section \<open>Properties\<close>

subsection \<open>The heap\<close>

lemma swap_Inr:
  assumes "swap h v w = Inr h'"
  shows "0 \<le> v \<and> v < int (length (array h)) \<and> 0 \<le> w \<and> w < int (length (array h))"
    and "array h' = (array h)[nat v := array h ! nat w, nat w := array h ! nat v]"
    and "nb_elements h' = nb_elements h"
  using assms unfolding swap_def by (auto simp: bnd_Inr rd_Inr wr_Inr)

lemma swap_live:
  assumes s: "swap h v w = Inr h'" and l: "live_all P h" and v: "v < nb_elements h" and w: "w < nb_elements h"
  shows "live_all P h'"
  unfolding live_all_def
proof (intro allI impI)
  fix i assume i: "0 \<le> i \<and> i < nb_elements h' \<and> i < int (length (array h'))"
  note r = swap_Inr[OF s]
  have len: "length (array h') = length (array h)" using r(2) by simp
  have Pv: "P (array h ! nat v)" using l r(1) v unfolding live_all_def by blast
  have Pw: "P (array h ! nat w)" using l r(1) w unfolding live_all_def by blast
  have Pi: "P (array h ! nat i)" using l i r(3) len unfolding live_all_def by simp
  have nv: "nat v < length (array h)" and nw: "nat w < length (array h)"
    and ni: "nat i < length (array h)"
    using r(1) i len by auto
  have "array h' ! nat i = (if nat i = nat w then array h ! nat v
        else if nat i = nat v then array h ! nat w else array h ! nat i)"
    using nv nw ni by (simp add: r(2) nth_list_update)
  then show "P (array h' ! nat i)" using Pv Pw Pi by simp
qed

lemma sift_up_live:
  "sift_up h i = Inr h' \<Longrightarrow> i < nb_elements h \<Longrightarrow> live_all P h \<Longrightarrow> live_all P h'"
proof (induction h i arbitrary: h' rule: sift_up.induct)
  case (1 heap i)
  note eq = "1.prems"(1)[unfolded sift_up.simps[of heap i]]
  show ?case
  proof (cases "i > 0")
    case False
    with eq "1.prems" show ?thesis by simp
  next
    case pos: True
    from eq pos obtain a p where a: "rd (array heap) i = Inr a"
      and p: "rd (array heap) ((i - 1) div 2) = Inr p"
      and rest: "(if wless (weight a) (weight p) then
          bnd (rd (inds heap) (ind a)) (\<lambda>s.
          if s \<noteq> i then Inl AssertionFailed
          else bnd (swap heap i ((i - 1) div 2)) (\<lambda>heap'. sift_up heap' ((i - 1) div 2)))
        else Inr heap) = Inr h'"
      by (auto simp: bnd_Inr)
    show ?thesis
    proof (cases "wless (weight a) (weight p)")
      case False
      with rest "1.prems" show ?thesis by simp
    next
      case lt: True
      with rest obtain s h1 where s: "rd (inds heap) (ind a) = Inr s" and si: "\<not> s \<noteq> i"
        and sw: "swap heap i ((i - 1) div 2) = Inr h1"
        and rec: "sift_up h1 ((i - 1) div 2) = Inr h'"
        by (auto simp: bnd_Inr split: if_splits)
      have par: "(i - 1) div 2 < nb_elements heap" using pos "1.prems"(2) by linarith
      have l1: "live_all P h1" using swap_live[OF sw "1.prems"(3) "1.prems"(2) par] .
      have "(i - 1) div 2 < nb_elements h1" using par swap_Inr(3)[OF sw] by simp
      from "1.IH"[OF pos a p lt s si sw rec this l1] show ?thesis .
    qed
  qed
qed

lemma sift_down_live:
  "sift_down h i = Inr h' \<Longrightarrow> live_all P h \<Longrightarrow> live_all P h'"
proof (induction h i arbitrary: h' rule: sift_down.induct)
  case (1 heap i)
  note eq = "1.prems"(1)[unfolded sift_down.simps[of heap i]]
  show ?case
  proof (cases "i < nb_elements heap")
    case False
    with eq "1.prems" show ?thesis by simp
  next
    case lt: True
    with eq obtain l where l: "largest_index heap i = Inr l"
      and rest: "(if l = i then Inr heap else bnd (swap heap i l) (\<lambda>heap'. sift_down heap' l)) = Inr h'"
      by (auto simp: bnd_Inr)
    show ?thesis
    proof (cases "l = i")
      case True
      with rest "1.prems" show ?thesis by simp
    next
      case ne: False
      with rest obtain h1 where sw: "swap heap i l = Inr h1" and rec: "sift_down h1 l = Inr h'"
        by (auto simp: bnd_Inr)
      have "l < nb_elements heap" using largest_index_range[OF l ne] by simp
      then have "live_all P h1" using swap_live[OF sw "1.prems"(2) lt] by simp
      from "1.IH"[OF lt l ne sw rec this] show ?thesis .
    qed
  qed
qed


lemma nth_update_pred: "n < length xs \<Longrightarrow> P x \<Longrightarrow> P (xs ! n) \<Longrightarrow> P (xs[m := x] ! n)"
  by (cases "m = n") simp_all

lemma heap_add_live:
  assumes a: "heap_add e h = Inr h'" and e: "P e" and l: "live_all P h"
  shows "live_all P h'"
proof -
  from a obtain slot h2 where slot: "rd (inds h) (ind e) = Inr slot"
    and br: "(if slot = - 1 then
            (let i = nb_elements h;
                 heap1 = h\<lparr>nb_elements := nb_elements h + 1\<rparr>
             in if \<not> nb_elements heap1 \<le> max_elements heap1 then Inl AssertionFailed else
                bnd (wr (array heap1) i e) (\<lambda>arr.
                bnd (wr (inds heap1) (ind e) i) (\<lambda>is.
                sift_up (heap1\<lparr>array := arr, inds := is\<rparr>) i)))
          else
            bnd (rd (array h) slot) (\<lambda>a.
            if wless (weight e) (weight a)
            then bnd (wr (array h) slot e) (\<lambda>arr. Inr (h\<lparr>array := arr\<rparr>))
            else Inr h)) = Inr h2"
    and fin: "h2 = h'"
    unfolding heap_add_def by (auto simp: bnd_Inr split: if_splits)
  show ?thesis
  proof (cases "slot = - 1")
    case True
    with br obtain arr "is" where arr: "wr (array h) (nb_elements h) e = Inr arr"
      and su: "sift_up (h\<lparr>nb_elements := nb_elements h + 1, array := arr, inds := is\<rparr>) (nb_elements h) = Inr h2"
      by (auto simp: bnd_Inr Let_def split: if_splits)
    have arr_eq: "arr = (array h)[nat (nb_elements h) := e]" and nb0: "0 \<le> nb_elements h"
      using arr by (auto simp: wr_Inr)
    have "live_all P (h\<lparr>nb_elements := nb_elements h + 1, array := arr, inds := is\<rparr>)"
      unfolding live_all_def
    proof (intro allI impI)
      fix i assume "0 \<le> i \<and> i < nb_elements (h\<lparr>nb_elements := nb_elements h + 1, array := arr, inds := is\<rparr>)
         \<and> i < int (length (array (h\<lparr>nb_elements := nb_elements h + 1, array := arr, inds := is\<rparr>)))"
      then have i: "0 \<le> i" "i \<le> nb_elements h" "nat i < length (array h)"
        by (auto simp: arr_eq)
      show "P (array (h\<lparr>nb_elements := nb_elements h + 1, array := arr, inds := is\<rparr>) ! nat i)"
      proof (cases "i = nb_elements h")
        case True
        with i e show ?thesis by (simp add: arr_eq)
      next
        case False
        with i nb0 have "nat i \<noteq> nat (nb_elements h)" "i < nb_elements h" by auto
        with i l show ?thesis unfolding live_all_def by (simp add: arr_eq)
      qed
    qed
    from sift_up_live[OF su _ this] fin show ?thesis by simp
  next
    case False
    with br obtain a where a: "rd (array h) slot = Inr a"
      and r: "(if wless (weight e) (weight a)
            then bnd (wr (array h) slot e) (\<lambda>arr. Inr (h\<lparr>array := arr\<rparr>))
            else Inr h) = Inr h2"
      by (auto simp: bnd_Inr)
    show ?thesis
    proof (cases "wless (weight e) (weight a)")
      case False
      with r fin l show ?thesis by simp
    next
      case True
      with r have h2: "h2 = h\<lparr>array := (array h)[nat slot := e]\<rparr>"
        by (auto simp: bnd_Inr wr_Inr)
      have "live_all P (h\<lparr>array := (array h)[nat slot := e]\<rparr>)"
        unfolding live_all_def
      proof (intro allI impI)
        fix i assume "0 \<le> i \<and> i < nb_elements (h\<lparr>array := (array h)[nat slot := e]\<rparr>)
           \<and> i < int (length (array (h\<lparr>array := (array h)[nat slot := e]\<rparr>)))"
        then have i: "0 \<le> i" "i < nb_elements h" "nat i < length (array h)" by auto
        then have "P (array h ! nat i)" using l unfolding live_all_def by simp
        with i e show "P (array (h\<lparr>array := (array h)[nat slot := e]\<rparr>) ! nat i)"
          by (simp add: nth_update_pred)
      qed
      with h2 fin show ?thesis by simp
    qed
  qed
qed

lemma heap_remove_live:
  assumes a: "heap_remove h = Inr h'" and l: "live_all P h"
  shows "live_all P h'"
proof -
  from a obtain last_v arr "is" where
    r: "rd (array h) (nb_elements h - 1) = Inr last_v" and
    w: "wr (array h) 0 last_v = Inr arr" and
    s: "sift_down (h\<lparr>array := arr, inds := is, nb_elements := nb_elements h - 1\<rparr>) 0 = Inr h'"
    unfolding heap_remove_def by (auto simp: bnd_Inr split: if_splits)
  have last: "P last_v" using r l unfolding live_all_def by (auto simp: rd_Inr)
  have arr: "arr = (array h)[0 := last_v]" using w by (auto simp: wr_Inr)
  have "live_all P (h\<lparr>array := arr, inds := is, nb_elements := nb_elements h - 1\<rparr>)"
    unfolding live_all_def
  proof (intro allI impI)
    fix i assume "0 \<le> i \<and> i < nb_elements (h\<lparr>array := arr, inds := is, nb_elements := nb_elements h - 1\<rparr>)
       \<and> i < int (length (array (h\<lparr>array := arr, inds := is, nb_elements := nb_elements h - 1\<rparr>)))"
    then have i: "0 \<le> i" "i < nb_elements h" "nat i < length (array h)" by (auto simp: arr)
    then have "P (array h ! nat i)" using l unfolding live_all_def by simp
    with i last show "P (array (h\<lparr>array := arr, inds := is, nb_elements := nb_elements h - 1\<rparr>) ! nat i)"
      by (simp add: arr nth_update_pred)
  qed
  from sift_down_live[OF s this] show ?thesis .
qed

lemma heap_peek_live:
  assumes "heap_peek h = Inr v" and "1 \<le> nb_elements h" and "live_all P h"
  shows "P v"
  using assms unfolding heap_peek_def live_all_def by (auto simp: rd_Inr split: if_splits)

lemma check_loop_True:
  "check_loop h ws = Inr True \<Longrightarrow> list_all (\<lambda>i. inds h ! nat (ind (array h ! nat i)) = i) ws"
proof (induction ws)
  case Nil
  then show ?case by simp
next
  case (Cons i ws)
  from Cons.prems obtain a s where a: "rd (array h) i = Inr a" and s: "rd (inds h) (ind a) = Inr s"
    and r: "(if s \<noteq> i then Inr False else check_loop h ws) = Inr True"
    by (auto simp: bnd_Inr)
  from r have "s = i" "check_loop h ws = Inr True" by (auto split: if_splits)
  with a s Cons.IH show ?case by (auto simp: rd_Inr)
qed

lemma check_heap_inds: "check_heap h = Inr True \<Longrightarrow> inds_consistent h"
  unfolding check_heap_def inds_consistent_def by (auto split: if_splits dest: check_loop_True)

text \<open>
  Both operations end with \<^verbatim>\<open>assert(check_heap(heap))\<close>: whenever they return, the index
  array is consistent and the heap is not full.
\<close>

lemma heap_add_inds: "heap_add v h = Inr h' \<Longrightarrow> inds_consistent h'"
  unfolding heap_add_def by (auto simp: bnd_Inr split: if_splits dest: check_heap_inds)

lemma heap_remove_inds: "heap_remove h = Inr h' \<Longrightarrow> inds_consistent h'"
  unfolding heap_remove_def by (auto simp: bnd_Inr split: if_splits dest: check_heap_inds)

lemma check_heap_True: "check_heap h = Inr True \<Longrightarrow> nb_elements h < max_elements h"
  by (auto simp: check_heap_def split: if_splits)

lemma heap_add_below_capacity: "heap_add v h = Inr h' \<Longrightarrow> nb_elements h' < max_elements h'"
  unfolding heap_add_def by (auto simp: bnd_Inr split: if_splits dest: check_heap_True)

text \<open>
  A key that is not smaller than the one stored for a vertex already in the index leaves
  the heap as it is.
\<close>

lemma heap_add_larger_key_noop:
  assumes "heap_add v h = Inr h'" and "rd (inds h) (ind v) = Inr slot" and "slot \<noteq> - 1"
    and "rd (array h) slot = Inr a" and "\<not> wless (weight v) (weight a)"
  shows "h' = h"
  using assms unfolding heap_add_def by (auto simp: bnd_Inr split: if_splits)

text \<open>
  \<^verbatim>\<open>heap_remove\<close> does not reset the index of the vertex it removes, which stays 0. In a
  heap of capacity 3, add vertex 0 (key 1) and vertex 1 (key 2), remove the root
  (vertex 0), then add vertex 0 again with key 1.5: \<^verbatim>\<open>heap_add\<close> takes vertex 0 to be in
  slot 0 and overwrites the entry of vertex 1 there. Only vertex 0 is left to extract.
\<close>

lemma heap_add_after_remove_overwrites:
  "bnd (heap_create 3) (\<lambda>h.
   bnd (heap_adds [entry 0 (Fin 1) (- 1), entry 1 (Fin 2) (- 1)] h) (\<lambda>h.
   bnd (heap_remove h) (\<lambda>h.
   bnd (heap_add (entry 0 (Fin (3 / 2)) (- 1)) h) drain)))
   = Inr [entry 0 (Fin (3 / 2)) (- 1)]"
  by code_simp

text \<open>
  C2. Entries added by \<^verbatim>\<open>heap_add\<close> should come out of repeated \<^verbatim>\<open>heap_remove\<close> in
  non-decreasing key order, and a smaller key for a vertex already in the heap should move
  it forward. In a heap of capacity 3, add vertex 0 with key 5, vertex 1 with key 10, then
  vertex 1 again with key 1: the second branch of \<^verbatim>\<open>heap_add\<close> overwrites slot 1 and does
  not sift up, so vertex 0 (key 5) is extracted before vertex 1 (key 1).
\<close>

theorem heap_decrease_key_extraction_order:
  "bnd (heap_create 3) (\<lambda>h.
   bnd (heap_adds [entry 0 (Fin 5) (- 1), entry 1 (Fin 10) (- 1), entry 1 (Fin 1) (- 1)] h) drain)
   = Inr [entry 0 (Fin 5) (- 1), entry 1 (Fin 1) (- 1)]"
  by code_simp

text \<open>
  C3. After the same three additions the heap holds vertex 0 with key 5 in slot 0 and
  vertex 1 with key 1 in slot 1: the index array is consistent, but the child's key is
  smaller than its parent's.
\<close>

theorem heap_decrease_key_breaks_order:
  "bnd (heap_create 3) (\<lambda>h.
   bnd (heap_adds [entry 0 (Fin 5) (- 1), entry 1 (Fin 10) (- 1), entry 1 (Fin 1) (- 1)] h) (\<lambda>h'.
   Inr (array h', nb_elements h', inds_consistent h', heap_ordered h')))
   = Inr ([entry 0 (Fin 5) (- 1), entry 1 (Fin 1) (- 1), unset], 2, True, False)"
  by code_simp

text \<open>
  C9. On an empty heap (\<^verbatim>\<open>nb_elements\<close> is 0, the capacity is positive) \<^verbatim>\<open>heap_peek\<close>
  stops on its assertion. \<^verbatim>\<open>heap_remove\<close> asserts only \<^verbatim>\<open>check_heap\<close>, which an empty
  heap passes; it then reads \<^verbatim>\<open>array[nb_elements - 1]\<close>, that is \<^verbatim>\<open>array[-1]\<close>, outside
  the array. No assertion fires.
\<close>

theorem heap_remove_empty_unchecked:
  "nb_elements h = 0 \<Longrightarrow> 0 < max_elements h \<Longrightarrow>
     heap_peek h = Inl AssertionFailed \<and> heap_remove h = Inl OutOfBounds"
  by (simp add: bnd_def heap_peek_def heap_empty_def heap_remove_def check_heap_def rd_def)

text \<open>An instance: the heap of capacity 3 from which its only entry has been removed.\<close>

theorem heap_remove_empty_unchecked_witness:
  "bnd (heap_create 3) (\<lambda>h. bnd (heap_add (entry 0 (Fin 1) (- 1)) h) heap_remove)
     = Inr \<lparr>array = [entry 0 (Fin 1) (- 1), unset, unset], inds = [0, - 1, - 1],
            nb_elements = 0, max_elements = 3\<rparr> \<and>
   nb_elements \<lparr>array = [entry 0 (Fin 1) (- 1), unset, unset], inds = [0, - 1, - 1],
            nb_elements = 0, max_elements = 3\<rparr> = 0 \<and>
   0 < max_elements \<lparr>array = [entry 0 (Fin 1) (- 1), unset, unset], inds = [0, - 1, - 1],
            nb_elements = 0, max_elements = 3\<rparr> \<and>
   heap_peek \<lparr>array = [entry 0 (Fin 1) (- 1), unset, unset], inds = [0, - 1, - 1],
            nb_elements = 0, max_elements = 3\<rparr> = Inl AssertionFailed \<and>
   heap_remove \<lparr>array = [entry 0 (Fin 1) (- 1), unset, unset], inds = [0, - 1, - 1],
            nb_elements = 0, max_elements = 3\<rparr> = Inl OutOfBounds"
proof -
  have made: "bnd (heap_create 3) (\<lambda>h. bnd (heap_add (entry 0 (Fin 1) (- 1)) h) heap_remove)
     = Inr \<lparr>array = [entry 0 (Fin 1) (- 1), unset, unset], inds = [0, - 1, - 1],
            nb_elements = 0, max_elements = 3\<rparr>"
    by code_simp
  show ?thesis
    using made heap_remove_empty_unchecked[of "\<lparr>array = [entry 0 (Fin 1) (- 1), unset, unset],
      inds = [0, - 1, - 1], nb_elements = 0, max_elements = 3\<rparr>"]
    by simp
qed

text \<open>
  C10. A heap of capacity 1 does not accept one vertex: after the insertion
  \<^verbatim>\<open>nb_elements\<close> equals \<^verbatim>\<open>max_elements\<close>, the inner assertion
  \<^verbatim>\<open>nb_elements <= max_elements\<close> holds, and the closing \<^verbatim>\<open>assert(check_heap(heap))\<close>
  fails because \<^verbatim>\<open>check_heap\<close> rejects \<^verbatim>\<open>nb_elements >= max_elements\<close>. The same happens
  with the third of three distinct vertices in a heap of capacity 3.
\<close>

theorem heap_add_to_capacity_fails:
  "bnd (heap_create 1) (heap_add (entry 0 (Fin 5) (- 1))) = Inl AssertionFailed \<and>
   bnd (heap_create 3)
     (heap_adds [entry 0 (Fin 1) (- 1), entry 1 (Fin 2) (- 1)]) =
     Inr \<lparr>array = [entry 0 (Fin 1) (- 1), entry 1 (Fin 2) (- 1), unset],
          inds = [0, 1, - 1], nb_elements = 2, max_elements = 3\<rparr> \<and>
   bnd (heap_create 3)
     (heap_adds [entry 0 (Fin 1) (- 1), entry 1 (Fin 2) (- 1), entry 2 (Fin 3) (- 1)]) =
     Inl AssertionFailed"
  by code_simp

subsection \<open>Dijkstra\<close>

lemma wless_finite: "wless x y \<Longrightarrow> x \<noteq> INFINITY"
  by (cases x) auto

lemma relax_adj_reached:
  "relax_adj v d adj q = Inr q' \<Longrightarrow> \<forall>a\<in>set adj. reachable g src (ind a) \<Longrightarrow>
     live_all (reached g src) q \<Longrightarrow> live_all (reached g src) q'"
proof (induction adj arbitrary: q)
  case Nil
  then show ?case by simp
next
  case (Cons a adj)
  from Cons.prems(1) obtain d0 where d0: "rd d (ind a) = Inr d0"
    and rest: "(if wless (wadd (weight v) (weight a)) (weight d0) then
        bnd (heap_add \<lparr>ind = ind a, weight = wadd (weight v) (weight a), prev = ind v\<rparr> q) (\<lambda>q'.
        relax_adj v d adj q')
      else relax_adj v d adj q) = Inr q'"
    by (auto simp: bnd_Inr Let_def)
  show ?case
  proof (cases "wless (wadd (weight v) (weight a)) (weight d0)")
    case False
    with rest have "relax_adj v d adj q = Inr q'" by simp
    then show ?thesis using Cons.IH Cons.prems(2,3) by simp
  next
    case True
    with rest obtain q1 where
      add: "heap_add \<lparr>ind = ind a, weight = wadd (weight v) (weight a), prev = ind v\<rparr> q = Inr q1"
      and rec: "relax_adj v d adj q1 = Inr q'"
      by (auto simp: bnd_Inr)
    have "reached g src \<lparr>ind = ind a, weight = wadd (weight v) (weight a), prev = ind v\<rparr>"
      using Cons.prems(2) wless_finite[OF True] by (simp add: reached_def)
    then have "live_all (reached g src) q1" using heap_add_live[OF add _ Cons.prems(3)] by simp
    then show ?thesis using Cons.IH[OF rec] Cons.prems(2) by simp
  qed
qed

lemma get_adj_list_reachable:
  assumes "get_adj_list g u = Inr adj" and "reachable g src u"
  shows "\<forall>a\<in>set adj. reachable g src (ind a)"
proof (cases "u \<ge> nb_vertices g")
  case True
  with assms show ?thesis by (simp add: get_adj_list_def)
next
  case False
  with assms(1) have "0 \<le> u" "u < int (length (adj_lists g))" "adj = adj_lists g ! nat u"
    by (auto simp: get_adj_list_def rd_Inr)
  with False assms(2) show ?thesis by (auto intro: reachable.step)
qed

lemma dijkstra_loop_table_inv:
  "dijkstra_loop g vs d q = Inr r \<Longrightarrow> live_all (reached g src) q \<Longrightarrow> table_inv g src d \<Longrightarrow>
     table_inv g src r"
proof (induction g vs d q arbitrary: r rule: dijkstra_loop.induct)
  case (1 g vs d q)
  note eq = "1.prems"(1)[unfolded dijkstra_loop.simps[of g vs d q]]
  show ?case
  proof (cases "heap_empty q")
    case True
    with eq "1.prems" show ?thesis by simp
  next
    case ne: False
    with eq obtain v q1 seen where pk: "heap_peek q = Inr v" and rm: "heap_remove q = Inr q1"
      and sn: "rd vs (ind v) = Inr seen"
      and rest: "(if \<not> seen then
        bnd (wr vs (ind v) True) (\<lambda>visited1.
        bnd (rd d (ind v)) (\<lambda>d0.
        bnd (wr d (ind v) (d0\<lparr>weight := weight v, prev := prev v\<rparr>)) (\<lambda>distv1.
        bnd (get_adj_list g (ind v)) (\<lambda>adj.
        bnd (relax_adj v distv1 adj q1) (\<lambda>q2.
        dijkstra_loop g visited1 distv1 q2)))))
      else dijkstra_loop g vs d q1) = Inr r"
      by (auto simp: bnd_Inr)
    have nb: "1 \<le> nb_elements q" using heap_remove_nb_elements[OF rm] by simp
    have gv: "reached g src v" using heap_peek_live[OF pk nb "1.prems"(2)] .
    have l1: "live_all (reached g src) q1" using heap_remove_live[OF rm "1.prems"(2)] .
    show ?thesis
    proof (cases seen)
      case True
      with rest have "dijkstra_loop g vs d q1 = Inr r" by simp
      from "1.IH"(2)[OF ne pk rm sn _ this l1 "1.prems"(3)] True show ?thesis by simp
    next
      case False
      with rest obtain vs1 d0 d1 adj q2 where
        vs1: "wr vs (ind v) True = Inr vs1" and d0: "rd d (ind v) = Inr d0"
        and d1: "wr d (ind v) (d0\<lparr>weight := weight v, prev := prev v\<rparr>) = Inr d1"
        and adj: "get_adj_list g (ind v) = Inr adj"
        and rl: "relax_adj v d1 adj q1 = Inr q2"
        and rec: "dijkstra_loop g vs1 d1 q2 = Inr r"
        by (auto simp: bnd_Inr)
      have iv: "0 \<le> ind v" "nat (ind v) < length d" "d0 = d ! nat (ind v)"
        and d1_eq: "d1 = d[nat (ind v) := d0\<lparr>weight := weight v, prev := prev v\<rparr>]"
        using d0 d1 by (auto simp: rd_Inr wr_Inr)
      have ind0: "ind d0 = ind v"
        using "1.prems"(3) iv unfolding table_inv_def
        by (metis entry_def int_nat_eq of_nat_less_iff vertex_s.select_convs(1))
      have "table_inv g src d1"
        unfolding table_inv_def
      proof (intro allI impI)
        fix w assume w: "0 \<le> w \<and> w < int (length d1)"
        show "d1 ! nat w = entry w INFINITY (- 1) \<or> (ind (d1 ! nat w) = w \<and> reached g src (d1 ! nat w))"
        proof (cases "w = ind v")
          case True
          then have "d1 ! nat w = d0\<lparr>weight := weight v, prev := prev v\<rparr>"
            using iv by (simp add: d1_eq)
          with True ind0 gv show ?thesis by (simp add: reached_def)
        next
          case False
          with w iv have "nat w \<noteq> nat (ind v)" by auto
          then have "d1 ! nat w = d ! nat w" by (simp add: d1_eq)
          with "1.prems"(3) w show ?thesis unfolding table_inv_def by (simp add: d1_eq)
        qed
      qed
      moreover have "live_all (reached g src) q2"
        using relax_adj_reached[OF rl get_adj_list_reachable[OF adj] l1] gv by (simp add: reached_def)
      ultimately show ?thesis
        using "1.IH"(1)[OF ne pk rm sn _ vs1 d0 d1 adj rl rec] False by simp
    qed
  qed
qed


lemma dijkstra_loop_keeps:
  "dijkstra_loop g vs d q = Inr r \<Longrightarrow>
     length r = length d \<and> (\<forall>x. rd vs x = Inr True \<longrightarrow> r ! nat x = d ! nat x)"
proof (induction g vs d q arbitrary: r rule: dijkstra_loop.induct)
  case (1 g vs d q)
  note eq = "1.prems"(1)[unfolded dijkstra_loop.simps[of g vs d q]]
  show ?case
  proof (cases "heap_empty q")
    case True
    with eq show ?thesis by simp
  next
    case ne: False
    with eq obtain v q1 seen where pk: "heap_peek q = Inr v" and rm: "heap_remove q = Inr q1"
      and sn: "rd vs (ind v) = Inr seen"
      and rest: "(if \<not> seen then
        bnd (wr vs (ind v) True) (\<lambda>visited1.
        bnd (rd d (ind v)) (\<lambda>d0.
        bnd (wr d (ind v) (d0\<lparr>weight := weight v, prev := prev v\<rparr>)) (\<lambda>distv1.
        bnd (get_adj_list g (ind v)) (\<lambda>adj.
        bnd (relax_adj v distv1 adj q1) (\<lambda>q2.
        dijkstra_loop g visited1 distv1 q2)))))
      else dijkstra_loop g vs d q1) = Inr r"
      by (auto simp: bnd_Inr)
    show ?thesis
    proof (cases seen)
      case True
      with rest have "dijkstra_loop g vs d q1 = Inr r" by simp
      from "1.IH"(2)[OF ne pk rm sn _ this] True show ?thesis by simp
    next
      case False
      with rest obtain vs1 d0 d1 adj q2 where
        vs1: "wr vs (ind v) True = Inr vs1" and d0: "rd d (ind v) = Inr d0"
        and d1: "wr d (ind v) (d0\<lparr>weight := weight v, prev := prev v\<rparr>) = Inr d1"
        and adj: "get_adj_list g (ind v) = Inr adj"
        and rl: "relax_adj v d1 adj q1 = Inr q2"
        and rec: "dijkstra_loop g vs1 d1 q2 = Inr r"
        by (auto simp: bnd_Inr)
      have ih: "length r = length d1 \<and> (\<forall>x. rd vs1 x = Inr True \<longrightarrow> r ! nat x = d1 ! nat x)"
        using "1.IH"(1)[OF ne pk rm sn _ vs1 d0 d1 adj rl rec] False by simp
      have d1_eq: "d1 = d[nat (ind v) := d0\<lparr>weight := weight v, prev := prev v\<rparr>]"
        and vs1_eq: "vs1 = vs[nat (ind v) := True]" and iv: "0 \<le> ind v"
        using d1 vs1 by (auto simp: wr_Inr)
      have nv: "\<not> vs ! nat (ind v)" using sn False by (auto simp: rd_Inr)
      have "r ! nat x = d ! nat x" if x: "rd vs x = Inr True" for x
      proof -
        from x have x0: "0 \<le> x" "nat x < length vs" "vs ! nat x" by (auto simp: rd_Inr)
        with nv iv have ne: "nat x \<noteq> nat (ind v)" by auto
        have "rd vs1 x = Inr True" using x0 ne by (auto simp: rd_Inr vs1_eq)
        with ih have "r ! nat x = d1 ! nat x" by simp
        with ne show ?thesis by (simp add: d1_eq)
      qed
      with ih show ?thesis by (simp add: d1_eq)
    qed
  qed
qed

lemma init_nth:
  "0 \<le> w \<Longrightarrow> w < n \<Longrightarrow> map f [0 .. n - 1] ! nat w = f w"
  by (simp add: nth_upto)

lemma heap_create_live: "heap_create n = Inr q \<Longrightarrow> live_all P q"
  by (auto simp: heap_create_def live_all_def split: if_splits)

text \<open>What a successful run of \<^verbatim>\<open>dijkstra\<close> went through before its main loop.\<close>

lemma dijkstra_Inr:
  assumes "dijkstra g src = Inr r"
  obtains q q1 where "0 \<le> src" "src < nb_vertices g"
    "heap_create (nb_vertices g) = Inr q"
    "heap_add (entry src (Fin 0) (- 1)) q = Inr q1"
    "dijkstra_loop g (map (\<lambda>i. False) [0 .. nb_vertices g - 1])
       ((map (\<lambda>i. entry i INFINITY (- 1)) [0 .. nb_vertices g - 1])[nat src := entry src (Fin 0) (- 1)])
       q1 = Inr r"
proof -
  let ?n = "nb_vertices g"
  let ?d = "map (\<lambda>i. \<lparr>ind = i, weight = INFINITY, prev = - 1\<rparr>) [0 .. ?n - 1]"
  from assms obtain q d0 d1 s q1 where q: "heap_create ?n = Inr q"
    and d0: "rd ?d src = Inr d0" and d1: "wr ?d src (d0\<lparr>weight := Fin 0\<rparr>) = Inr d1"
    and s: "rd d1 src = Inr s" and add: "heap_add s q = Inr q1"
    and lp: "dijkstra_loop g (map (\<lambda>i. False) [0 .. ?n - 1]) d1 q1 = Inr r"
    unfolding dijkstra_def Let_def by (auto simp: bnd_Inr)
  have src: "0 \<le> src" "src < ?n" using d0 by (auto simp: rd_Inr split: if_splits)
  then have "d0 = entry src INFINITY (- 1)" using d0 by (auto simp: rd_Inr nth_upto entry_def)
  then have d1_eq: "d1 = (map (\<lambda>i. entry i INFINITY (- 1)) [0 .. ?n - 1])[nat src := entry src (Fin 0) (- 1)]"
    using d1 by (auto simp: wr_Inr entry_def)
  have "s = entry src (Fin 0) (- 1)" using s src by (auto simp: rd_Inr d1_eq)
  with that[OF src q] add lp d1_eq show ?thesis by simp
qed

lemma dijkstra_table_inv:
  assumes "dijkstra g src = Inr r"
  shows "table_inv g src r"
proof -
  from assms obtain q q1 where src: "0 \<le> src" "src < nb_vertices g"
    and q: "heap_create (nb_vertices g) = Inr q"
    and add: "heap_add (entry src (Fin 0) (- 1)) q = Inr q1"
    and lp: "dijkstra_loop g (map (\<lambda>i. False) [0 .. nb_vertices g - 1])
       ((map (\<lambda>i. entry i INFINITY (- 1)) [0 .. nb_vertices g - 1])[nat src := entry src (Fin 0) (- 1)])
       q1 = Inr r"
    by (rule dijkstra_Inr)
  have gs: "reached g src (entry src (Fin 0) (- 1))"
    by (simp add: reached_def entry_def reachable.start)
  have l1: "live_all (reached g src) q1"
    using heap_add_live[where P = "reached g src", OF add gs heap_create_live[OF q]] .
  have "table_inv g src ((map (\<lambda>i. entry i INFINITY (- 1)) [0 .. nb_vertices g - 1])[nat src := entry src (Fin 0) (- 1)])"
    unfolding table_inv_def
  proof (intro allI impI)
    fix w
    assume "0 \<le> w \<and> w < int (length ((map (\<lambda>i. entry i INFINITY (- 1)) [0 .. nb_vertices g - 1])[nat src := entry src (Fin 0) (- 1)]))"
    then have w: "0 \<le> w" "w < nb_vertices g" by (auto split: if_splits)
    let ?d = "(map (\<lambda>i. entry i INFINITY (- 1)) [0 .. nb_vertices g - 1])[nat src := entry src (Fin 0) (- 1)]"
    show "?d ! nat w = entry w INFINITY (- 1) \<or> (ind (?d ! nat w) = w \<and> reached g src (?d ! nat w))"
    proof (cases "w = src")
      case True
      with w gs show ?thesis by (simp add: entry_def)
    next
      case False
      with w src have "nat w \<noteq> nat src" by auto
      with w show ?thesis by (simp add: nth_upto)
    qed
  qed
  from dijkstra_loop_table_inv[OF lp l1 this] show ?thesis .
qed

lemma dijkstra_length:
  assumes "dijkstra g src = Inr r"
  shows "int (length r) = nb_vertices g"
proof -
  from assms obtain q1 :: heap_s where src: "0 \<le> src" "src < nb_vertices g"
    and lp: "dijkstra_loop g (map (\<lambda>i. False) [0 .. nb_vertices g - 1])
       ((map (\<lambda>i. entry i INFINITY (- 1)) [0 .. nb_vertices g - 1])[nat src := entry src (Fin 0) (- 1)])
       q1 = Inr r"
    by (rule dijkstra_Inr)
  from dijkstra_loop_keeps[OF lp] src show ?thesis by simp
qed



lemma dijkstra_unreachable_untouched:
  assumes "dijkstra g src = Inr r" and "0 \<le> w" and "w < nb_vertices g" and "\<not> reachable g src w"
  shows "r ! nat w = entry w INFINITY (- 1)"
  using dijkstra_table_inv[OF assms(1)] dijkstra_length[OF assms(1)] assms(2-4)
  unfolding table_inv_def reached_def by auto


text \<open>
  C1. Whenever \<^verbatim>\<open>dijkstra\<close> returns, every vertex that is not reachable from the source
  keeps the distance \<^verbatim>\<open>INFINITY\<close> and the predecessor -1. On the undirected graph with 4
  vertices and the edges 0-1 (1.0), 1-2 (2.0), 0-2 (5.0), 2-3 (1.0), \<^verbatim>\<open>dijkstra\<close> from
  source 0 returns the distances 0, 1, 3, 4 and the predecessors -1, 0, 1, 2: the source
  keeps the sentinel -1 with which every entry starts, since its heap entry is
  \<^verbatim>\<open>dist[src]\<close> itself.
\<close>

theorem dijkstra_table:
  "(dijkstra g src = Inr r \<and> 0 \<le> w \<and> w < nb_vertices g \<and> \<not> reachable g src w
      \<longrightarrow> rd r w = Inr (entry w INFINITY (- 1))) \<and>
   bnd (create_graph 4 4 False [edge 0 1 1, edge 1 2 2, edge 0 2 5, edge 2 3 1])
     (\<lambda>g. dijkstra g 0)
   = Inr [entry 0 (Fin 0) (- 1), entry 1 (Fin 1) 0, entry 2 (Fin 3) 1, entry 3 (Fin 4) 2]"
proof (intro conjI impI)
  assume a: "dijkstra g src = Inr r \<and> 0 \<le> w \<and> w < nb_vertices g \<and> \<not> reachable g src w"
  then have "r ! nat w = entry w INFINITY (- 1)" using dijkstra_unreachable_untouched by blast
  moreover have "int (length r) = nb_vertices g" using a dijkstra_length by blast
  ultimately show "rd r w = Inr (entry w INFINITY (- 1))" using a by (simp add: rd_Inr)
next
  show "bnd (create_graph 4 4 False [edge 0 1 1, edge 1 2 2, edge 0 2 5, edge 2 3 1])
     (\<lambda>g. dijkstra g 0)
   = Inr [entry 0 (Fin 0) (- 1), entry 1 (Fin 1) 0, entry 2 (Fin 3) 1, entry 3 (Fin 4) 2]"
    by code_simp
qed

text \<open>
  An instance: 3 vertices, one edge 0\<rightarrow>1 of weight 1, source 0. Vertex 2 is not
  reachable and keeps \<^verbatim>\<open>INFINITY\<close> and -1.
\<close>

theorem dijkstra_table_witness:
  "dijkstra \<lparr>nb_vertices = 3, nb_edges = 1, directed = True,
       adj_lists = [[entry 1 (Fin 1) 0], [], []]\<rparr> 0
     = Inr [entry 0 (Fin 0) (- 1), entry 1 (Fin 1) 0, entry 2 INFINITY (- 1)] \<and>
   (0::int) \<le> 2 \<and>
   2 < nb_vertices \<lparr>nb_vertices = 3, nb_edges = 1, directed = True,
       adj_lists = [[entry 1 (Fin 1) 0], [], []]\<rparr> \<and>
   \<not> reachable \<lparr>nb_vertices = 3, nb_edges = 1, directed = True,
       adj_lists = [[entry 1 (Fin 1) 0], [], []]\<rparr> 0 2 \<and>
   rd [entry 0 (Fin 0) (- 1), entry 1 (Fin 1) 0, entry 2 INFINITY (- 1)] 2
     = Inr (entry 2 INFINITY (- 1))"
proof -
  let ?g = "\<lparr>nb_vertices = 3, nb_edges = 1, directed = True,
       adj_lists = [[entry 1 (Fin 1) 0], [], []]\<rparr>"
  let ?r = "[entry 0 (Fin 0) (- 1), entry 1 (Fin 1) 0, entry 2 INFINITY (- 1)]"
  have run: "dijkstra ?g 0 = Inr ?r" by code_simp
  have "x = 0 \<or> x = 1" if "reachable ?g 0 x" for x
    using that
  proof (induction rule: reachable.induct)
    case start
    then show ?case by simp
  next
    case (step u a)
    then show ?case by (auto simp: entry_def)
  qed
  then have nr: "\<not> reachable ?g 0 2" by fastforce
  have "rd ?r 2 = Inr (entry 2 INFINITY (- 1))"
    using dijkstra_table[of ?g 0 ?r 2] run nr by simp
  with run nr show ?thesis by simp
qed

text \<open>
  C1 as stated gives the predecessors 0, 0, 1, 2 for this graph; the predecessor of the
  source differs.
\<close>

theorem dijkstra_scenario_predecessors:
  "bnd (bnd (create_graph 4 4 False [edge 0 1 1, edge 1 2 2, edge 0 2 5, edge 2 3 1])
          (\<lambda>g. dijkstra g 0)) (\<lambda>r. Inr (map prev r))
   \<noteq> Inr [0, 0, 1, 2]"
  by code_simp

text \<open>
  The distances of \<^verbatim>\<open>dijkstra\<close> are not always shortest. Directed graph, 4 vertices, edges
  0\<rightarrow>3 (1), 0\<rightarrow>1 (5), 0\<rightarrow>2 (10), 3\<rightarrow>2 (0.5), 2\<rightarrow>1 (1), source 0. The path 0, 3, 2, 1 has
  weight 2.5, but vertex 1 is returned with distance 5 and predecessor 0: when vertex 3 is
  finalised, the key of vertex 2 drops from 10 to 1.5 in place, below its parent (vertex 1,
  key 5), and vertex 1 is extracted first.
\<close>

lemma dijkstra_not_shortest:
  "bnd (create_graph 4 5 True
          [edge 0 3 1, edge 0 1 5, edge 0 2 10, edge 3 2 (1 / 2), edge 2 1 1])
     (\<lambda>g. dijkstra g 0)
   = Inr [entry 0 (Fin 0) (- 1), entry 1 (Fin 5) 0, entry 2 (Fin (3 / 2)) 3, entry 3 (Fin 1) 0]"
  by code_simp

subsection \<open>Bellman-Ford and Floyd-Warshall\<close>

lemma for_loop_inv:
  "for_loop ws body s = Inr s' \<Longrightarrow> I s \<Longrightarrow>
     (\<And>i x y. i \<in> set ws \<Longrightarrow> I x \<Longrightarrow> body i x = Inr y \<Longrightarrow> I y) \<Longrightarrow> I s'"
proof (induction ws arbitrary: s)
  case Nil
  then show ?case by simp
next
  case (Cons i ws)
  from Cons.prems(1) obtain s1 where s1: "body i s = Inr s1" and r: "for_loop ws body s1 = Inr s'"
    by (auto simp: bnd_Inr)
  have s1_ok: "I s1" by (rule Cons.prems(3)[OF _ Cons.prems(2) s1]) simp
  show ?case
  proof (rule Cons.IH[OF r s1_ok])
    fix j x y assume "j \<in> set ws" "I x" "body j x = Inr y"
    then show "I y" using Cons.prems(3)[of j x y] by simp
  qed
qed

lemma bf_init_Inr:
  assumes "bf_init src w g = Inr g'"
  shows "0 \<le> w \<and> nat w < length (bf_dist g) \<and> nat w < length (bf_parent g)"
    and "g' = g\<lparr>bf_dist := (bf_dist g)[nat w := (if w \<noteq> src then INFINITY else Fin 0)],
           bf_parent := (bf_parent g)[nat w := (if w \<noteq> src then - 1 else w)]\<rparr>"
  using assms unfolding bf_init_def by (auto simp: bnd_Inr wr_Inr)

lemma bf_init_loop:
  "for_loop ws (bf_init src) g = Inr g' \<Longrightarrow> \<forall>x\<in>D. 0 \<le> x \<and> bf_initialised src x g \<Longrightarrow>
     (\<forall>x\<in>D \<union> set ws. bf_initialised src x g') \<and>
     bf_adj_matrix g' = bf_adj_matrix g \<and> neg_weight_cycle g' = neg_weight_cycle g"
proof (induction ws arbitrary: g D)
  case Nil
  then show ?case by simp
next
  case (Cons w ws)
  from Cons.prems(1) obtain g1 where g1: "bf_init src w g = Inr g1"
    and r: "for_loop ws (bf_init src) g1 = Inr g'"
    by (auto simp: bnd_Inr)
  note i = bf_init_Inr[OF g1]
  have "\<forall>x\<in>insert w D. 0 \<le> x \<and> bf_initialised src x g1"
  proof
    fix x assume x: "x \<in> insert w D"
    show "0 \<le> x \<and> bf_initialised src x g1"
    proof (cases "x = w")
      case True
      with i show ?thesis by (simp add: bf_initialised_def)
    next
      case False
      with x Cons.prems(2) have x0: "0 \<le> x" "bf_initialised src x g" by auto
      with False i(1) have "nat x \<noteq> nat w" by auto
      with x0 show ?thesis by (simp add: bf_initialised_def i(2))
    qed
  qed
  from Cons.IH[OF r this] show ?case by (simp add: i(2))
qed

lemma bf_relax_Inr:
  assumes "bf_relax w u g = Inr g'"
  shows "g' = g \<or>
    (\<exists>a. 0 \<le> w \<and> nat w < length (bf_dist g) \<and> nat w < length (bf_parent g) \<and>
         0 \<le> u \<and> nat u < length (bf_dist g) \<and>
         rd2 (bf_adj_matrix g) u w = Inr a \<and>
         wless (wadd (bf_dist g ! nat u) a) (bf_dist g ! nat w) \<and>
         g' = g\<lparr>bf_dist := (bf_dist g)[nat w := wadd (bf_dist g ! nat u) a],
                bf_parent := (bf_parent g)[nat w := u]\<rparr>)"
  using assms unfolding bf_relax_def
  by (auto simp: bnd_Inr rd_Inr wr_Inr Let_def split: if_splits)



lemma bellman_ford_Inr:
  assumes "bellman_ford g src = Inr g'"
  obtains g1 g2 where
    "for_loop [0 .. bf_nb_vertices g - 1] (bf_init src) g = Inr g1"
    "for_loop [1 .. bf_nb_vertices g - 2] (\<lambda>k.
       for_loop [0 .. bf_nb_vertices g - 1] (\<lambda>w.
         for_loop [0 .. bf_nb_vertices g - 1] (\<lambda>u. bf_relax w u))) g1 = Inr g2"
    "bf_dist g' = bf_dist g2" "bf_parent g' = bf_parent g2"
  using assms unfolding bellman_ford_def Let_def by (auto simp: bnd_Inr split: if_splits)


lemma rd2_Inr:
  "rd2 m i j = Inr a \<Longrightarrow>
     0 \<le> i \<and> nat i < length m \<and> 0 \<le> j \<and> nat j < length (m ! nat i) \<and> a = m ! nat i ! nat j"
  unfolding rd2_def by (auto simp: bnd_Inr rd_Inr)

lemma wadd_Fin: "wadd x y = Fin z \<Longrightarrow> \<exists>a b. x = Fin a \<and> y = Fin b \<and> z = a + b"
  by (cases x; cases y) auto

lemma wless_Fin: "wless x y \<Longrightarrow> \<exists>a. x = Fin a"
  by (cases x) auto

lemma bf_relax_walk_ok:
  assumes r: "bf_relax w u g = Inr g'" and ok: "bf_walk_ok n src g"
    and u: "0 \<le> u" "u < n" and w: "0 \<le> w" "w < n" and src: "0 \<le> src"
  shows "bf_walk_ok n src g'"
proof -
  from bf_relax_Inr[OF r] show ?thesis
  proof
    assume "g' = g" with ok show ?thesis by simp
  next
    assume "\<exists>a. 0 \<le> w \<and> nat w < length (bf_dist g) \<and> nat w < length (bf_parent g) \<and>
         0 \<le> u \<and> nat u < length (bf_dist g) \<and>
         rd2 (bf_adj_matrix g) u w = Inr a \<and>
         wless (wadd (bf_dist g ! nat u) a) (bf_dist g ! nat w) \<and>
         g' = g\<lparr>bf_dist := (bf_dist g)[nat w := wadd (bf_dist g ! nat u) a],
                bf_parent := (bf_parent g)[nat w := u]\<rparr>"
    then obtain a where len: "nat w < length (bf_dist g)" "nat w < length (bf_parent g)"
      and a: "rd2 (bf_adj_matrix g) u w = Inr a"
      and lt: "wless (wadd (bf_dist g ! nat u) a) (bf_dist g ! nat w)"
      and g': "g' = g\<lparr>bf_dist := (bf_dist g)[nat w := wadd (bf_dist g ! nat u) a],
                bf_parent := (bf_parent g)[nat w := u]\<rparr>"
      by auto
    from wless_Fin[OF lt] obtain y where y: "wadd (bf_dist g ! nat u) a = Fin y" by auto
    from wadd_Fin[OF y] obtain ru a' where ru: "bf_dist g ! nat u = Fin ru" and a': "a = Fin a'"
      and ysum: "y = ru + a'" by auto
    have "bf_walk (bf_adj_matrix g) src u ru"
      using ok u ru unfolding bf_walk_ok_def by auto
    then have walk: "bf_walk (bf_adj_matrix g) src w y"
      using a a' ysum by (auto intro: bf_walk.step)
    have adj: "bf_adj_matrix g' = bf_adj_matrix g" by (simp add: g')
    have reach: "bf_dist g' ! nat x = INFINITY \<or>
        (\<exists>r. bf_dist g' ! nat x = Fin r \<and> bf_walk (bf_adj_matrix g') src x r)"
      if x: "0 \<le> x \<and> x < n" for x
    proof (cases "x = w")
      case True
      with len y walk show ?thesis by (simp add: g')
    next
      case False
      with x w have "nat x \<noteq> nat w" by auto
      with x ok show ?thesis unfolding bf_walk_ok_def by (simp add: g')
    qed
    have source: "(bf_dist g' ! nat src = Fin 0 \<and> bf_parent g' ! nat src = src) \<or>
      (\<exists>r. r < 0 \<and> bf_dist g' ! nat src = Fin r)"
    proof (cases "w = src")
      case False
      with w src have "nat src \<noteq> nat w" by auto
      with ok show ?thesis unfolding bf_walk_ok_def by (simp add: g')
    next
      case True
      from ok have "bf_dist g ! nat src = Fin 0 \<or> (\<exists>r. r < 0 \<and> bf_dist g ! nat src = Fin r)"
        unfolding bf_walk_ok_def by auto
      with lt y True have "y < 0" by auto
      with True len y show ?thesis by (simp add: g')
    qed
    from reach source show ?thesis unfolding bf_walk_ok_def by blast
  qed
qed

lemma bf_rounds_walk_ok:
  assumes "for_loop ks (\<lambda>k. for_loop [0 .. n - 1] (\<lambda>w. for_loop [0 .. n - 1] (\<lambda>u. bf_relax w u))) g = Inr g'"
    and "bf_walk_ok n src g" and "0 \<le> src"
  shows "bf_walk_ok n src g'"
proof -
  have inner: "bf_walk_ok n src y"
    if "for_loop [0 .. n - 1] (\<lambda>u. bf_relax w u) x = Inr y" "bf_walk_ok n src x"
      "w \<in> set [0 .. n - 1]" for w x y
  using that(1) that(2)
  proof (rule for_loop_inv)
    fix u x y assume "u \<in> set [0 .. n - 1]" "bf_walk_ok n src x" "bf_relax w u x = Inr y"
    with that(3) assms(3) show "bf_walk_ok n src y"
      using bf_relax_walk_ok[of w u x y n src] by simp
  qed
  have middle: "bf_walk_ok n src y"
    if "for_loop [0 .. n - 1] (\<lambda>w. for_loop [0 .. n - 1] (\<lambda>u. bf_relax w u)) x = Inr y"
      "bf_walk_ok n src x" for x y
    using that(1) that(2)
  proof (rule for_loop_inv)
    fix w x y assume "w \<in> set [0 .. n - 1]" "bf_walk_ok n src x"
      "for_loop [0 .. n - 1] (\<lambda>u. bf_relax w u) x = Inr y"
    then show "bf_walk_ok n src y" using inner by simp
  qed
  show ?thesis
    using assms(1) assms(2) by (rule for_loop_inv) (rule middle)
qed

lemma bf_rounds_adj:
  assumes "for_loop ks (\<lambda>k. for_loop ws (\<lambda>w. for_loop us (\<lambda>u. bf_relax w u))) g = Inr g'"
  shows "bf_adj_matrix g' = bf_adj_matrix g"
proof -
  have one: "bf_adj_matrix y = bf_adj_matrix x" if "bf_relax w u x = Inr y" for w u x y
    using bf_relax_Inr[OF that] by auto
  have inner: "bf_adj_matrix y = m" if "for_loop us (\<lambda>u. bf_relax w u) x = Inr y" "bf_adj_matrix x = m" for w x y m
    using that(1) that(2) by (rule for_loop_inv) (simp add: one)
  have middle: "bf_adj_matrix y = m"
    if "for_loop ws (\<lambda>w. for_loop us (\<lambda>u. bf_relax w u)) x = Inr y" "bf_adj_matrix x = m" for x y m
    using that(1) that(2) by (rule for_loop_inv) (rule inner)
  show ?thesis
    using assms refl by (rule for_loop_inv) (rule middle)
qed

lemma bellman_ford_source:
  assumes "bellman_ford g src = Inr g'" and "0 \<le> src" and "src < bf_nb_vertices g"
    and "\<forall>r. bf_walk (bf_adj_matrix g) src src r \<longrightarrow> 0 \<le> r"
  shows "bf_dist g' ! nat src = Fin 0 \<and> bf_parent g' ! nat src = src"
proof -
  let ?n = "bf_nb_vertices g"
  from assms(1) obtain g1 g2 where
    i: "for_loop [0 .. ?n - 1] (bf_init src) g = Inr g1" and
    r: "for_loop [1 .. ?n - 2] (\<lambda>k.
       for_loop [0 .. ?n - 1] (\<lambda>w.
         for_loop [0 .. ?n - 1] (\<lambda>u. bf_relax w u))) g1 = Inr g2" and
    e: "bf_dist g' = bf_dist g2" "bf_parent g' = bf_parent g2"
    by (rule bellman_ford_Inr)
  have init: "\<forall>x\<in>{} \<union> set [0 .. ?n - 1]. bf_initialised src x g1"
    and adj: "bf_adj_matrix g1 = bf_adj_matrix g"
    using bf_init_loop[OF i, of "{}"] by simp_all
  have "bf_walk_ok ?n src g1"
    unfolding bf_walk_ok_def
  proof (intro conjI allI impI)
    fix u assume "0 \<le> u \<and> u < ?n"
    with init have "bf_initialised src u g1" by auto
    then show "bf_dist g1 ! nat u = INFINITY \<or>
        (\<exists>r. bf_dist g1 ! nat u = Fin r \<and> bf_walk (bf_adj_matrix g1) src u r)"
      by (cases "u = src") (auto simp: bf_initialised_def intro: bf_walk.start)
  next
    show "(bf_dist g1 ! nat src = Fin 0 \<and> bf_parent g1 ! nat src = src) \<or>
      (\<exists>r. r < 0 \<and> bf_dist g1 ! nat src = Fin r)"
      using init assms(2,3) by (auto simp: bf_initialised_def)
  qed
  from bf_rounds_walk_ok[OF r this assms(2)] have ok: "bf_walk_ok ?n src g2" .
  have adj2: "bf_adj_matrix g2 = bf_adj_matrix g" using bf_rounds_adj[OF r] adj by simp
  have "\<not> (\<exists>r. r < 0 \<and> bf_dist g2 ! nat src = Fin r)"
  proof
    assume "\<exists>r. r < 0 \<and> bf_dist g2 ! nat src = Fin r"
    then obtain r where r: "r < 0" "bf_dist g2 ! nat src = Fin r" by auto
    with ok assms(2,3) have "bf_walk (bf_adj_matrix g2) src src r"
      unfolding bf_walk_ok_def by auto
    with adj2 assms(4) r(1) show False by auto
  qed
  with ok e show ?thesis unfolding bf_walk_ok_def by auto
qed

lemma nonneg_walks:
  assumes "list_all (list_all nonneg) m" and "bf_walk m src w r"
  shows "0 \<le> r"
  using assms(2)
proof (induction rule: bf_walk.induct)
  case start
  then show ?case by simp
next
  case (step u r w a)
  from rd2_Inr[OF step.hyps(2)] have "Fin a \<in> set (m ! nat u)" "m ! nat u \<in> set m" by auto
  with assms(1) have "nonneg (Fin a)" by (auto simp: list_all_iff)
  with step.IH show ?case by (simp add: nonneg_def)
qed

lemma bellman_ford_source_nonneg:
  assumes "bellman_ford g src = Inr g'" and "0 \<le> src" and "src < bf_nb_vertices g"
    and "list_all (list_all nonneg) (bf_adj_matrix g)"
  shows "bf_dist g' ! nat src = Fin 0 \<and> bf_parent g' ! nat src = src"
  using bellman_ford_source[OF assms(1-3)] nonneg_walks[OF assms(4)] by blast

lemma floyd_warshall_returns_true: "floyd_warshall g \<noteq> Inr (False, g')"
  by (auto simp: floyd_warshall_def Let_def bnd_def split: sum.splits)

text \<open>
  C4. Directed graph with 2 vertices and the single edge 0\<rightarrow>1 of weight 1, source 0,
  whatever \<^verbatim>\<open>create_graph\<close> left in \<^verbatim>\<open>dist\<close>, \<^verbatim>\<open>parent\<close> and the flag. The relaxation
  rounds of \<^verbatim>\<open>bellman_ford\<close> run for \<open>k = 1, \<dots>, n - 2\<close>, here not at all: vertex 1 keeps
  \<^verbatim>\<open>INFINITY\<close>, and the final pass finds the edge 0\<rightarrow>1 still improving and sets the flag.
  With the \<open>n - 1\<close> rounds of the specification the distance of vertex 1 is 1 and the flag
  is left as it was.
\<close>

theorem bellman_ford_rounds:
  "bnd (create_graph_bf 2 1 True [edge 0 1 1] [d0, d1] [p0, p1] f) (\<lambda>g. bellman_ford g 0)
   = Inr \<lparr>bf_nb_vertices = 2, bf_nb_edges = 1, bf_directed = True,
          bf_adj_matrix = [[Fin 0, Fin 1], [INFINITY, Fin 0]],
          bf_dist = [Fin 0, INFINITY], bf_parent = [0, - 1], neg_weight_cycle = True\<rparr> \<and>
   bnd (create_graph_bf 2 1 True [edge 0 1 1] [d0, d1] [p0, p1] f) (\<lambda>g. bellman_ford_spec g 0)
   = Inr \<lparr>bf_nb_vertices = 2, bf_nb_edges = 1, bf_directed = True,
          bf_adj_matrix = [[Fin 0, Fin 1], [INFINITY, Fin 0]],
          bf_dist = [Fin 0, Fin 1], bf_parent = [0, 0], neg_weight_cycle = f\<rparr>"
  by code_simp

text \<open>
  C6. \<^verbatim>\<open>floyd_warshall\<close> never returns \<^verbatim>\<open>false\<close>, the value its documentation gives to a
  detected negative cycle. On the directed 2-cycle 0\<rightarrow>1 (-1), 1\<rightarrow>0 (-1), whatever the
  allocated matrices held, it returns \<^verbatim>\<open>true\<close> with the diagonal entries -2 and -4. \<^verbatim>\<open>bellman_ford\<close> from source 0 does set
  its flag on this graph.
\<close>

theorem floyd_warshall_two_cycle:
  "floyd_warshall g \<noteq> Inr (False, g') \<and>
   bnd (create_graph_fw 2 2 True [edge 0 1 (- 1), edge 1 0 (- 1)]
          [[a00, a01], [a10, a11]] [[q00, q01], [q10, q11]]) floyd_warshall
   = Inr (True,
       \<lparr>fw_nb_vertices = 2, fw_nb_edges = 2, fw_directed = True,
        fw_adj_matrix = [[Fin 0, Fin (- 1)], [Fin (- 1), Fin 0]],
        fw_dist = [[Fin (- 2), Fin (- 3)], [Fin (- 3), Fin (- 4)]],
        fw_parent = [[1, 0], [1, 0]]\<rparr>) \<and>
   bnd (create_graph_bf 2 2 True [edge 0 1 (- 1), edge 1 0 (- 1)] [d0, d1] [p0, p1] f)
     (\<lambda>g. bellman_ford g 0)
   = Inr \<lparr>bf_nb_vertices = 2, bf_nb_edges = 2, bf_directed = True,
          bf_adj_matrix = [[Fin 0, Fin (- 1)], [Fin (- 1), Fin 0]],
          bf_dist = [Fin 0, INFINITY], bf_parent = [0, - 1], neg_weight_cycle = True\<rparr>"
proof (intro conjI)
  show "floyd_warshall g \<noteq> Inr (False, g')" by (rule floyd_warshall_returns_true)
qed code_simp+

text \<open>
  C7. Directed graph with 2 vertices and the single edge 0\<rightarrow>1 of weight 1, source 0:
  \<^verbatim>\<open>dijkstra\<close> returns the distances 0, 1; \<^verbatim>\<open>bellman_ford\<close> leaves 0, \<^verbatim>\<open>INFINITY\<close>; row 0 of
  \<^verbatim>\<open>floyd_warshall\<close> is 0, 1.
\<close>

theorem engines_disagree:
  "bnd (bnd (create_graph 2 1 True [edge 0 1 1]) (\<lambda>g. dijkstra g 0)) (\<lambda>r. Inr (map weight r))
     = Inr [Fin 0, Fin 1] \<and>
   bnd (bnd (create_graph_bf 2 1 True [edge 0 1 1] [d0, d1] [p0, p1] f) (\<lambda>g. bellman_ford g 0))
       (\<lambda>g. Inr (bf_dist g))
     = Inr [Fin 0, INFINITY] \<and>
   bnd (bnd (create_graph_fw 2 1 True [edge 0 1 1]
               [[a00, a01], [a10, a11]] [[q00, q01], [q10, q11]]) floyd_warshall)
       (\<lambda>(b, g). rd (fw_dist g) 0)
     = Inr [Fin 0, Fin 1]"
  by code_simp

subsection \<open>The Markov variant\<close>

lemmas markov_evals =
  heap_create_def heap_add_def heap_remove_def heap_peek_def heap_empty_def check_heap_def
  bnd_def rd_def wr_def unset_def upto.simps swap_def sift_up.simps sift_down.simps
  largest_index_def get_adj_list_def wmul_def wneg_log_def wexp_neg_def Let_def
  eval_nat_numeral

lemma markov_chain_graph:
  "create_graph 3 3 True [edge 0 1 (3 / 5), edge 0 2 (2 / 5), edge 1 2 1]
   = Inr \<lparr>nb_vertices = 3, nb_edges = 3, directed = True,
          adj_lists = [[entry 2 (Fin (2 / 5)) 0, entry 1 (Fin (3 / 5)) 0],
                       [entry 2 (Fin 1) 1], []]\<rparr>"
  by code_simp















text \<open>
  On the graph with a single vertex \<^verbatim>\<open>dijkstra\<close> and \<^verbatim>\<open>dijkstra_markov\<close> return nothing:
  the heap has capacity 1, and \<^verbatim>\<open>heap_add\<close> of the source stops on its closing assertion
  (see \<open>heap_add_to_capacity_fails\<close>).
\<close>

lemma dijkstra_single_vertex:
  "bnd (create_graph 1 0 dir []) (\<lambda>g. dijkstra g 0) = Inl AssertionFailed"
  by code_simp

lemma dijkstra_markov_single_vertex:
  "bnd (create_graph 1 0 dir []) (\<lambda>g. dijkstra_markov g 0) = Inl AssertionFailed"
  by (simp add: create_graph_def dijkstra_markov_def markov_evals)

text \<open>
  C5. The chain 0\<rightarrow>1 (0.6), 0\<rightarrow>2 (0.4), 1\<rightarrow>2 (1.0) with source 0. The source enters the
  heap with the key 1.0, its probability, where the key of probability 1 is
  \<open>-log 1 = 0\<close>; on extraction its score becomes \<open>exp (-1)\<close>, and every score is that
  factor too small. The predecessors are -1, 0, 1 (the chain 0, 1, 2), but the score of
  vertex 2 is \<open>0.6 \<sqdot> exp (-1)\<close>, about 0.22, not 0.6.
\<close>

theorem markov_chain_scores:
  "bnd (create_graph 3 3 True [edge 0 1 (3 / 5), edge 0 2 (2 / 5), edge 1 2 1])
     (\<lambda>g. dijkstra_markov g 0)
   = Inr [entry 0 (Fin (exp (- 1))) (- 1),
          entry 1 (Fin (exp (- 1) * (3 / 5))) 0,
          entry 2 (Fin (exp (- 1) * (3 / 5))) 1] \<and>
   Fin (exp (- 1) * (3 / 5)) \<noteq> Fin (3 / 5)"
proof -
  have "dijkstra_markov \<lparr>nb_vertices = 3, nb_edges = 3, directed = True,
          adj_lists = [[entry 2 (Fin (2 / 5)) 0, entry 1 (Fin (3 / 5)) 0],
                       [entry 2 (Fin 1) 1], []]\<rparr> 0
     = Inr [entry 0 (Fin (exp (- 1))) (- 1),
          entry 1 (Fin (exp (- 1) * (3 / 5))) 0,
          entry 2 (Fin (exp (- 1) * (3 / 5))) 1]"
    apply (simp add: dijkstra_markov_def entry_def markov_evals)
    apply (subst markov_loop.simps, simp add: markov_evals)
    apply (subst markov_loop.simps, simp add: markov_evals)
    apply (subst markov_loop.simps, simp add: markov_evals)
    apply (subst markov_loop.simps, simp add: markov_evals)
    done
  then show ?thesis by (simp add: markov_chain_graph bnd_def)
qed

subsection \<open>Source and sentinel in the result tables\<close>

text \<open>
  With a negative cycle through the source the rounds of \<^verbatim>\<open>bellman_ford\<close> do overwrite
  the predecessor of the source: 4 vertices, edges 0\<rightarrow>1 (-1) and 1\<rightarrow>0 (-1), source 0.
\<close>

lemma bellman_ford_source_overwritten:
  "bnd (create_graph_bf 4 2 True [edge 0 1 (- 1), edge 1 0 (- 1)]
          [d0, d1, d2, d3] [p0, p1, p2, p3] f)
     (\<lambda>g. bnd (bellman_ford g 0) (\<lambda>g'. Inr (bf_dist g', bf_parent g', neg_weight_cycle g')))
   = Inr ([Fin (- 2), Fin (- 3), INFINITY, INFINITY], [1, 0, - 1, - 1], True)"
  by code_simp

text \<open>
  Negative weights alone do not: 4 vertices, edges 0\<rightarrow>1 (-1) and 1\<rightarrow>2 (-1), source 0.
  No walk leads back to vertex 0 but the empty one and the turns on its diagonal entry.
\<close>

lemma bf_chain_graph:
  "create_graph_bf 4 2 True [edge 0 1 (- 1), edge 1 2 (- 1)] [d0, d1, d2, d3] [p0, p1, p2, p3] f
   = Inr \<lparr>bf_nb_vertices = 4, bf_nb_edges = 2, bf_directed = True,
       bf_adj_matrix = [[Fin 0, Fin (- 1), INFINITY, INFINITY],
                        [INFINITY, Fin 0, Fin (- 1), INFINITY],
                        [INFINITY, INFINITY, Fin 0, INFINITY],
                        [INFINITY, INFINITY, INFINITY, Fin 0]],
       bf_dist = [d0, d1, d2, d3], bf_parent = [p0, p1, p2, p3], neg_weight_cycle = f\<rparr>"
  by code_simp






end
